theory Spec2Isabelle
  imports Main
begin

section \<open>The syntax tree handed to the canonical parser\<close>

text \<open>
  \<^verbatim>\<open>src/parsers/canonical.parser.ts\<close> walks a parse tree of the grammar package. The
  parser only ever asks a node for its class (\<^verbatim>\<open>instanceof\<close>), its \<^verbatim>\<open>children\<close>, its
  \<^verbatim>\<open>childCount\<close>, its \<^verbatim>\<open>text\<close>, and the accessors \<^verbatim>\<open>ID()\<close> and \<^verbatim>\<open>rolePlayer()\<close>.
  A terminal carries its token type (only \<^verbatim>\<open>ID\<close> is ever asked for) and its text; a rule
  node carries its context class and its children. Text is ASCII: a \<open>char\<close> stands for one
  code unit below 128.
\<close>

datatype token = ID | OTHER

datatype rule_context =
    ContractContext | VariablesContext | VariableStatementContext
  | DatesContext | BeginDateContext | DueDateContext | DatetimeContext
  | PartiesContext | ApplicationContext | ProcessContext
  | ClausesContext | ClauseContext | RolePlayerContext | OnBreachContext
  | TermsContext | TermOrWhenContext | TermContext
  | TimeoutContext | MessageContentContext | OtherContext

datatype node = TerminalNode token string | RuleNode rule_context "node list"

text \<open>\<^verbatim>\<open>node.text\<close>: a terminal's token text; a rule node's text is the concatenation of
  its children's texts (the empty string without children).\<close>

fun node_text :: "node \<Rightarrow> string" where
  "node_text (TerminalNode t s) = s"
| "node_text (RuleNode k cs) = concat (map node_text cs)"

text \<open>\<^verbatim>\<open>node.children\<close>. The runtime allocates the array on the first \<^verbatim>\<open>addChild\<close>, so
  a rule node without children has \<^verbatim>\<open>children === undefined\<close>: the empty list stands for
  \<^verbatim>\<open>undefined\<close>, and \<^verbatim>\<open>childCount\<close> is the length.\<close>

fun children :: "node \<Rightarrow> node list" where
  "children (TerminalNode t s) = []"
| "children (RuleNode k cs) = cs"

definition childCount :: "node \<Rightarrow> nat" where
  "childCount n = length (children n)"

text \<open>\<^verbatim>\<open>n instanceof K\<close> for a context class \<open>K\<close>.\<close>

fun instanceof :: "node \<Rightarrow> rule_context \<Rightarrow> bool" where
  "instanceof (TerminalNode t s) k = False"
| "instanceof (RuleNode k' cs) k = (k' = k)"

datatype error = TypeError | NoSuchToken | NoSuchRuleContext | ListenerError

text \<open>\<^verbatim>\<open>cs?.[i]\<close>: \<^verbatim>\<open>undefined\<close> when the array is undefined or the index is out of range.\<close>

definition index_opt :: "node list \<Rightarrow> nat \<Rightarrow> node option" where
  "index_opt cs i = (if i < length cs then Some (cs ! i) else None)"

text \<open>\<^verbatim>\<open>cs?.[i].text\<close>: \<^verbatim>\<open>undefined\<close> when the array is undefined; reading \<^verbatim>\<open>.text\<close> of
  a missing element of an existing array raises a \<^verbatim>\<open>TypeError\<close>.\<close>

definition child_text :: "node list \<Rightarrow> nat \<Rightarrow> error + string option" where
  "child_text cs i =
     (if cs = [] then Inr None
      else if i < length cs then Inr (Some (node_text (cs ! i)))
      else Inl TypeError)"

text \<open>\<^verbatim>\<open>cs?.[i].text ?? ''\<close>.\<close>

definition child_text_or_empty :: "node list \<Rightarrow> nat \<Rightarrow> error + string" where
  "child_text_or_empty cs i =
     (case child_text cs i of
        Inl e \<Rightarrow> Inl e
      | Inr None \<Rightarrow> Inr []
      | Inr (Some s) \<Rightarrow> Inr s)"

text \<open>\<^verbatim>\<open>ID()\<close>: the first terminal child of token type \<^verbatim>\<open>ID\<close>, if any. The source reads
  the contract's through \<^verbatim>\<open>?.\<close> (no identifier, no name) and the clause's directly, where the
  runtime's \<^verbatim>\<open>getToken\<close> throws when there is none.\<close>

fun is_ID :: "node \<Rightarrow> bool" where
  "is_ID (TerminalNode t s) = (t = ID)"
| "is_ID (RuleNode k cs) = False"

definition tryGetID :: "node \<Rightarrow> node option" where
  "tryGetID n = (case filter is_ID (children n) of [] \<Rightarrow> None | t # ts \<Rightarrow> Some t)"

text \<open>\<^verbatim>\<open>getRuleContext(0, RolePlayerContext)\<close>: the first child of that class; the runtime
  throws when there is none.\<close>

definition rolePlayer_ctx :: "node \<Rightarrow> error + node" where
  "rolePlayer_ctx n =
     (case filter (\<lambda>c. instanceof c RolePlayerContext) (children n) of
        [] \<Rightarrow> Inl NoSuchRuleContext
      | r # rs \<Rightarrow> Inr r)"

section \<open>Strings: case, numbers\<close>

definition is_lower :: "char \<Rightarrow> bool" where
  "is_lower c \<longleftrightarrow> 97 \<le> (of_char c :: nat) \<and> (of_char c :: nat) \<le> 122"

definition is_upper :: "char \<Rightarrow> bool" where
  "is_upper c \<longleftrightarrow> 65 \<le> (of_char c :: nat) \<and> (of_char c :: nat) \<le> 90"

definition toUpperCase_char :: "char \<Rightarrow> char" where
  "toUpperCase_char c = (if is_lower c then char_of ((of_char c :: nat) - 32) else c)"

definition toLowerCase_char :: "char \<Rightarrow> char" where
  "toLowerCase_char c = (if is_upper c then char_of ((of_char c :: nat) + 32) else c)"

text \<open>\<^verbatim>\<open>String.prototype.toLocaleLowerCase\<close> on ASCII text, in a host locale without special
  casing rules.\<close>

definition toLocaleLowerCase :: "string \<Rightarrow> string" where
  "toLocaleLowerCase s = map toLowerCase_char s"

text \<open>
  Modelled from the spec: \<^verbatim>\<open>capitalizeFirst\<close> is imported from \<^verbatim>\<open>../utils\<close>, which is not
  among the sources. The spec describes the pascal rendering as "each part's first character
  upper-cased", and its scenario renders \<^verbatim>\<open>lateDelivery\<close> as \<^verbatim>\<open>LateDelivery\<close>: the first
  character is upper-cased and the rest is kept as it is.
\<close>

fun capitalizeFirst :: "string \<Rightarrow> string" where
  "capitalizeFirst [] = []"
| "capitalizeFirst (c # cs) = toUpperCase_char c # cs"

text \<open>\<^verbatim>\<open>s.startsWith('"')\<close>.\<close>

fun startsWithQuote :: "string \<Rightarrow> bool" where
  "startsWithQuote [] = False"
| "startsWithQuote (c # cs) = (c = CHR 0x22)"

text \<open>
  \<^verbatim>\<open>!isNaN(Number(s))\<close> for a string \<open>s\<close>: the string-to-number conversion of the language
  trims white space, reads the empty string as 0, and otherwise accepts a signed decimal
  literal (digits, fraction, exponent, or \<^verbatim>\<open>Infinity\<close>) or an unsigned binary, octal or
  hexadecimal integer literal; everything else is \<^verbatim>\<open>NaN\<close>.
\<close>

definition isWhiteSpace :: "char \<Rightarrow> bool" where
  "isWhiteSpace c \<longleftrightarrow> (of_char c :: nat) \<in> {9, 10, 11, 12, 13, 32}"

definition isDigit :: "char \<Rightarrow> bool" where
  "isDigit c \<longleftrightarrow> 48 \<le> (of_char c :: nat) \<and> (of_char c :: nat) \<le> 57"

definition isHexDigit :: "char \<Rightarrow> bool" where
  "isHexDigit c \<longleftrightarrow> isDigit c
     \<or> (65 \<le> (of_char c :: nat) \<and> (of_char c :: nat) \<le> 70)
     \<or> (97 \<le> (of_char c :: nat) \<and> (of_char c :: nat) \<le> 102)"

definition isOctalDigit :: "char \<Rightarrow> bool" where
  "isOctalDigit c \<longleftrightarrow> 48 \<le> (of_char c :: nat) \<and> (of_char c :: nat) \<le> 55"

definition isBinaryDigit :: "char \<Rightarrow> bool" where
  "isBinaryDigit c \<longleftrightarrow> c = CHR ''0'' \<or> c = CHR ''1''"

definition trim :: "string \<Rightarrow> string" where
  "trim s = rev (dropWhile isWhiteSpace (rev (dropWhile isWhiteSpace s)))"

definition digits1 :: "(char \<Rightarrow> bool) \<Rightarrow> string \<Rightarrow> bool" where
  "digits1 d s \<longleftrightarrow> s \<noteq> [] \<and> list_all d s"

fun dropSign :: "string \<Rightarrow> string" where
  "dropSign [] = []"
| "dropSign (c # cs) = (if c = CHR ''+'' \<or> c = CHR ''-'' then cs else c # cs)"

fun exponentPartOpt :: "string \<Rightarrow> bool" where
  "exponentPartOpt [] = True"
| "exponentPartOpt (c # cs) = ((c = CHR ''e'' \<or> c = CHR ''E'') \<and> digits1 isDigit (dropSign cs))"

definition unsignedDecimal :: "string \<Rightarrow> bool" where
  "unsignedDecimal s \<longleftrightarrow>
     s = ''Infinity'' \<or>
     (let ip = takeWhile isDigit s; rest = dropWhile isDigit s in
      case rest of
        [] \<Rightarrow> ip \<noteq> []
      | c # r \<Rightarrow>
          if c = CHR ''.''
          then (ip \<noteq> [] \<or> takeWhile isDigit r \<noteq> []) \<and> exponentPartOpt (dropWhile isDigit r)
          else ip \<noteq> [] \<and> exponentPartOpt rest)"

fun nonDecimalInteger :: "string \<Rightarrow> bool" where
  "nonDecimalInteger (z # p # ds) =
     (z = CHR ''0'' \<and>
      (if p = CHR ''x'' \<or> p = CHR ''X'' then digits1 isHexDigit ds
       else if p = CHR ''o'' \<or> p = CHR ''O'' then digits1 isOctalDigit ds
       else if p = CHR ''b'' \<or> p = CHR ''B'' then digits1 isBinaryDigit ds
       else False))"
| "nonDecimalInteger s = False"

definition isNumber :: "string \<Rightarrow> bool" where
  "isNumber s \<longleftrightarrow>
     (let t = trim s in t = [] \<or> unsignedDecimal (dropSign t) \<or> nonDecimalInteger t)"

text \<open>The template literal \<^verbatim>\<open>${index}\<close> of a term index: its decimal digits.\<close>

fun toString :: "nat \<Rightarrow> string" where
  "toString n = (if n < 10 then [char_of (48 + n)] else toString (n div 10) @ [char_of (48 + n mod 10)])"

declare toString.simps [simp del]

section \<open>The canonical model\<close>

text \<open>The interfaces of \<^verbatim>\<open>../models\<close> as the parser fills them. Field names carry the
  record's initial where two interfaces share a name.\<close>

record identifier_name =
  pascal :: string
  camel :: string
  snake :: string

record variable =
  name :: identifier_name
  vtype :: string

text \<open>An element of the array \<^verbatim>\<open>parseMessageContent\<close> returns: a raw text, \<^verbatim>\<open>undefined\<close>
  (a comparator read from a node without children), or a synthesized variable.\<close>

datatype parameter = Text string | Undefined | Var variable

text \<open>The three object shapes pushed to \<^verbatim>\<open>terms\<close>:
  \<^verbatim>\<open>{name, type: 'timeout', value}\<close>, \<^verbatim>\<open>{name, type: 'messageContent', variables}\<close> and
  \<^verbatim>\<open>{name, type: 'messageContent', comparator, variables}\<close>.\<close>

datatype clause_term =
    TimeoutTerm identifier_name string
  | MessageContentTerm identifier_name "parameter list"
  | ComparisonTerm identifier_name parameter "parameter list"

record messages =
  error_message :: string
  success_message :: string

record clause =
  clause_name :: identifier_name
  clause_type :: string
  clause_variables :: "variable list"
  rolePlayer :: "string option"
  operation :: "string option"
  clause_terms :: "clause_term list"
  clause_messages :: messages

record contract =
  contract_name :: string
  beginDate :: string
  dueDate :: string
  application :: string
  process :: string
  variables :: "variable list"
  clauses :: "clause list"

section \<open>\<^verbatim>\<open>parseMessageContent\<close>\<close>

text \<open>One operand of a comparison (the source repeats these three branches for
  \<^verbatim>\<open>value1\<close> with suffix 1 and for \<^verbatim>\<open>value2\<close> with suffix 2). A missing operand is
  \<^verbatim>\<open>undefined\<close>: \<^verbatim>\<open>Number(undefined)\<close> is \<^verbatim>\<open>NaN\<close> and \<^verbatim>\<open>value && ...\<close> is false, so the last
  branch is taken.\<close>

definition anonymous :: "nat \<Rightarrow> string \<Rightarrow> string \<Rightarrow> variable" where
  "anonymous index pos ty =
     \<lparr>name = \<lparr>pascal = ''MessageContent'' @ toString index @ pos,
               camel = ''messageContent'' @ toString index @ pos,
               snake = ''messageContent_'' @ toString index @ ''_'' @ pos\<rparr>,
      vtype = ty\<rparr>"

definition operand :: "node option \<Rightarrow> nat \<Rightarrow> string \<Rightarrow> string \<Rightarrow> parameter" where
  "operand val index pos ty =
     (case val of
        None \<Rightarrow> Var (anonymous index pos ty)
      | Some v \<Rightarrow>
          if isNumber (node_text v) then Text (node_text v)
          else if \<not> startsWithQuote (node_text v)
          then Var \<lparr>name = \<lparr>pascal = capitalizeFirst (node_text v),
                            camel = node_text v, snake = node_text v\<rparr>,
                    vtype = ty\<rparr>
          else Var (anonymous index pos ty))"

definition inferred_type :: "string option \<Rightarrow> string" where
  "inferred_type comparator =
     (if comparator = Some ''=='' \<or> comparator = Some ''!='' then ''TEXT'' else ''NUMBER'')"

definition parseMessageContent :: "node \<Rightarrow> nat \<Rightarrow> error + parameter list" where
  "parseMessageContent term index =
     (if childCount term = 4
      then Inr [Var \<lparr>name = \<lparr>pascal = ''MessageContent'' @ toString index,
                             camel = ''messageContent'' @ toString index,
                             snake = ''messageContent_'' @ toString index\<rparr>,
                     vtype = ''boolean''\<rparr>]
      else
        let value1 = index_opt (children term) 2;
            value2 = index_opt (children term) 4
        in case child_text (children term) 3 of
             Inl e \<Rightarrow> Inl e
           | Inr comparator \<Rightarrow>
               let ty = inferred_type comparator
               in Inr [operand value1 index ''1'' ty,
                       (case comparator of None \<Rightarrow> Undefined | Some c \<Rightarrow> Text c),
                       operand value2 index ''2'' ty])"

section \<open>Lowering one clause\<close>

text \<open>The mutable locals of the clause callback: \<^verbatim>\<open>terms\<close>, the \<^verbatim>\<open>variables\<close> object (its
  own string keys in insertion order), \<^verbatim>\<open>messages.error\<close> and \<^verbatim>\<open>termIndex\<close>.\<close>

record clause_state =
  terms :: "clause_term list"
  vars :: "(string \<times> variable) list"
  messages_error :: string
  termIndex :: nat

text \<open>\<^verbatim>\<open>{...variables, ...{[k]: v}}\<close>: an existing key keeps its place and takes the new value,
  a new key goes last. No key is an integer index (a text that parses as a number never names
  a Variable), so \<^verbatim>\<open>Object.values\<close> lists the values in this order.\<close>

fun assign :: "string \<Rightarrow> variable \<Rightarrow> (string \<times> variable) list \<Rightarrow> (string \<times> variable) list" where
  "assign k v [] = [(k, v)]"
| "assign k v ((k', v') # kvs) = (if k' = k then (k, v) # kvs else (k', v') # assign k v kvs)"

text \<open>The guard \<^verbatim>\<open>typeof p !== 'number' && typeof p !== 'string' && p\<close> and the merge
  under it.\<close>

fun merge_parameter :: "parameter \<Rightarrow> (string \<times> variable) list \<Rightarrow> (string \<times> variable) list" where
  "merge_parameter (Var v) kvs = assign (camel (name v)) v kvs"
| "merge_parameter (Text s) kvs = kvs"
| "merge_parameter Undefined kvs = kvs"

definition term_name :: "identifier_name \<Rightarrow> string \<Rightarrow> nat \<Rightarrow> identifier_name" where
  "term_name clauseName termType index =
     \<lparr>pascal = pascal clauseName @ capitalizeFirst termType @ toString index,
      camel = camel clauseName @ capitalizeFirst termType @ toString index,
      snake = snake clauseName @ ''_'' @ termType @ ''_'' @ toString index\<rparr>"

text \<open>\<^verbatim>\<open>xs.forEach(f)\<close> over a callback that may throw: the first exception ends the loop.\<close>

fun forEach :: "('s \<Rightarrow> 'a \<Rightarrow> error + 's) \<Rightarrow> 'a list \<Rightarrow> 's \<Rightarrow> error + 's" where
  "forEach f [] s = Inr s"
| "forEach f (x # xs) s = (case f s x of Inl e \<Rightarrow> Inl e | Inr s' \<Rightarrow> forEach f xs s')"

text \<open>The callback over the children of a timeout node.\<close>

definition timeout_child :: "identifier_name \<Rightarrow> clause_state \<Rightarrow> node \<Rightarrow> clause_state" where
  "timeout_child clauseName st t =
     (if isNumber (node_text t)
      then st\<lparr>termIndex := termIndex st + 1,
              terms := terms st @ [TimeoutTerm (term_name clauseName ''timeout'' (termIndex st)) (node_text t)]\<rparr>
      else st)"

text \<open>The message-content branch of the callback over the children of a term node.\<close>

definition message_content :: "identifier_name \<Rightarrow> clause_state \<Rightarrow> node \<Rightarrow> error + clause_state" where
  "message_content clauseName st op =
     (let nm = term_name clauseName ''messageContent'' (termIndex st) in
      case parseMessageContent op (termIndex st) of
        Inl e \<Rightarrow> Inl e
      | Inr parameters \<Rightarrow>
          let st1 =
                (if length parameters = 1
                 then st\<lparr>vars := merge_parameter (parameters ! 0) (vars st),
                         terms := terms st @ [MessageContentTerm nm parameters]\<rparr>
                 else st);
              st2 =
                (if length parameters = 3
                 then st1\<lparr>vars := merge_parameter (parameters ! 2)
                                     (merge_parameter (parameters ! 0) (vars st1)),
                          terms := terms st1 @
                            [ComparisonTerm nm (parameters ! 1) [parameters ! 0, parameters ! 2]]\<rparr>
                 else st1)
          in Inr (st2\<lparr>termIndex := termIndex st2 + 1\<rparr>))"

definition operation_child :: "identifier_name \<Rightarrow> clause_state \<Rightarrow> node \<Rightarrow> error + clause_state" where
  "operation_child clauseName st op =
     (let st1 = (if instanceof op TimeoutContext
                 then fold (\<lambda>t s. timeout_child clauseName s t) (children op) st
                 else st)
      in if instanceof op MessageContentContext then message_content clauseName st1 op
         else Inr st1)"

definition term_child :: "identifier_name \<Rightarrow> clause_state \<Rightarrow> node \<Rightarrow> error + clause_state" where
  "term_child clauseName st tm =
     (if \<not> instanceof tm TermContext then Inr st
      else forEach (operation_child clauseName) (children tm) st)"

definition terms_child :: "identifier_name \<Rightarrow> clause_state \<Rightarrow> node \<Rightarrow> error + clause_state" where
  "terms_child clauseName st ts =
     (if \<not> instanceof ts TermOrWhenContext then Inr st
      else forEach (term_child clauseName) (children ts) st)"

definition clause_child :: "identifier_name \<Rightarrow> clause_state \<Rightarrow> node \<Rightarrow> error + clause_state" where
  "clause_child clauseName st c =
     (if instanceof c OnBreachContext
      then (case child_text_or_empty (children c) 4 of
              Inl e \<Rightarrow> Inl e
            | Inr m \<Rightarrow> Inr (st\<lparr>messages_error := m\<rparr>))
      else if \<not> instanceof c TermsContext then Inr st
      else forEach (terms_child clauseName) (children c) st)"

definition initial_state :: clause_state where
  "initial_state = \<lparr>terms = [], vars = [], messages_error = [], termIndex = 0\<rparr>"

definition clauseName_of :: "string \<Rightarrow> string \<Rightarrow> identifier_name" where
  "clauseName_of clauseType nm =
     \<lparr>pascal = capitalizeFirst clauseType @ capitalizeFirst nm,
      camel = toLocaleLowerCase clauseType @ capitalizeFirst nm,
      snake = clauseType @ ''_'' @ nm\<rparr>"

text \<open>\<^verbatim>\<open>_clauses.rolePlayer().children?.[2].text\<close>.\<close>

definition rolePlayer_text :: "node \<Rightarrow> error + string option" where
  "rolePlayer_text c =
     (case rolePlayer_ctx c of Inl e \<Rightarrow> Inl e | Inr r \<Rightarrow> child_text (children r) 2)"

text \<open>The traversal of a clause node's children from the fresh locals; the final state is
  what \<^verbatim>\<open>clauses.push\<close> reads.\<close>

definition lower_terms :: "identifier_name \<Rightarrow> node \<Rightarrow> error + clause_state" where
  "lower_terms clauseName c = forEach (clause_child clauseName) (children c) initial_state"

definition lower_clause :: "node \<Rightarrow> error + clause" where
  "lower_clause c =
     (case child_text_or_empty (children c) 0 of
        Inl e \<Rightarrow> Inl e
      | Inr clauseType \<Rightarrow>
     (case tryGetID c of
        None \<Rightarrow> Inl NoSuchToken
      | Some idn \<Rightarrow>
     (let clauseName = clauseName_of clauseType (node_text idn) in
      case rolePlayer_text c of
        Inl e \<Rightarrow> Inl e
      | Inr rp \<Rightarrow>
     (case rolePlayer_text c of
        Inl e \<Rightarrow> Inl e
      | Inr opn \<Rightarrow>
     (case lower_terms clauseName c of
        Inl e \<Rightarrow> Inl e
      | Inr st \<Rightarrow>
          Inr \<lparr>clause_name = clauseName,
               clause_type = clauseType,
               clause_variables = map snd (vars st),
               rolePlayer = rp,
               operation = opn,
               clause_terms = terms st,
               clause_messages = \<lparr>error_message = messages_error st, success_message = []\<rparr>\<rparr>)))))"

section \<open>\<^verbatim>\<open>parse\<close>\<close>

text \<open>The mutable locals of \<^verbatim>\<open>parse\<close>.\<close>

record parse_state =
  st_beginDate :: string
  st_dueDate :: string
  st_application :: string
  st_process :: string
  st_clauses :: "clause list"

text \<open>The callback over the children of a variables-block. Its body is commented out in the
  source down to the tests it makes; none of them can throw.\<close>

definition variables_child :: "node \<Rightarrow> error + unit" where
  "variables_child v =
     (if instanceof v VariableStatementContext
      then (case index_opt (children v) 2 of
              None \<Rightarrow> Inr ()
            | Some t \<Rightarrow>
                if instanceof t TermContext
                then (case index_opt (children t) 0 of
                        None \<Rightarrow> Inr ()
                      | Some current \<Rightarrow>
                          if instanceof current MessageContentContext then Inr () else Inr ())
                else Inr ())
      else Inr ())"

definition date_child :: "parse_state \<Rightarrow> node \<Rightarrow> parse_state" where
  "date_child st d =
     (let st1 = (if instanceof d BeginDateContext
                 then fold (\<lambda>b s. if instanceof b DatetimeContext
                                   then s\<lparr>st_beginDate := node_text b\<rparr> else s) (children d) st
                 else st)
      in if instanceof d DueDateContext
         then fold (\<lambda>b s. if instanceof b DatetimeContext
                           then s\<lparr>st_dueDate := node_text b\<rparr> else s) (children d) st1
         else st1)"

definition party_child :: "parse_state \<Rightarrow> node \<Rightarrow> error + parse_state" where
  "party_child st p =
     (case (if instanceof p ApplicationContext
            then (case child_text_or_empty (children p) 2 of
                    Inl e \<Rightarrow> Inl e
                  | Inr a \<Rightarrow> Inr (st\<lparr>st_application := a\<rparr>))
            else Inr st) of
        Inl e \<Rightarrow> Inl e
      | Inr st1 \<Rightarrow>
          if instanceof p ProcessContext
          then (case child_text_or_empty (children p) 2 of
                  Inl e \<Rightarrow> Inl e
                | Inr a \<Rightarrow> Inr (st1\<lparr>st_process := a\<rparr>))
          else Inr st1)"

definition clauses_child :: "parse_state \<Rightarrow> node \<Rightarrow> error + parse_state" where
  "clauses_child st c =
     (if instanceof c ClauseContext
      then (case lower_clause c of
              Inl e \<Rightarrow> Inl e
            | Inr cl \<Rightarrow> Inr (st\<lparr>st_clauses := st_clauses st @ [cl]\<rparr>))
      else Inr st)"

definition contract_child :: "parse_state \<Rightarrow> node \<Rightarrow> error + parse_state" where
  "contract_child st item =
     (case (if instanceof item VariablesContext
            then forEach (\<lambda>u v. variables_child v) (children item) ()
            else Inr ()) of
        Inl e \<Rightarrow> Inl e
      | Inr u \<Rightarrow>
     (let st1 = (if instanceof item DatesContext
                 then fold (\<lambda>d s. date_child s d) (children item) st
                 else st)
      in case (if instanceof item PartiesContext
               then forEach party_child (children item) st1
               else Inr st1) of
           Inl e \<Rightarrow> Inl e
         | Inr st2 \<Rightarrow>
             if instanceof item ClausesContext
             then forEach clauses_child (children item) st2
             else Inr st2))"

definition initial_parse_state :: parse_state where
  "initial_parse_state =
     \<lparr>st_beginDate = [], st_dueDate = [], st_application = [], st_process = [], st_clauses = []\<rparr>"

text \<open>Everything \<^verbatim>\<open>parse\<close> does with the tree after the listener's walk.\<close>

definition canonicalize :: "node \<Rightarrow> error + contract" where
  "canonicalize tree =
     (let contractName = (case tryGetID tree of None \<Rightarrow> [] | Some t \<Rightarrow> node_text t) in
      case forEach contract_child (children tree) initial_parse_state of
        Inl e \<Rightarrow> Inl e
      | Inr st \<Rightarrow>
          Inr \<lparr>contract_name = contractName,
               beginDate = st_beginDate st,
               dueDate = st_dueDate st,
               application = st_application st,
               process = st_process st,
               variables = [],
               clauses = st_clauses st\<rparr>)"

text \<open>\<^verbatim>\<open>parse\<close>. The listener of \<^verbatim>\<open>../validators\<close> is walked over the tree first; it is not
  among the sources, so its outcome is a parameter: \<open>Some e\<close> when the walk throws.\<close>

definition parse :: "(node \<Rightarrow> error option) \<Rightarrow> node \<Rightarrow> error + contract" where
  "parse listener tree =
     (case listener tree of Some e \<Rightarrow> Inl e | None \<Rightarrow> canonicalize tree)"

section \<open>Example trees\<close>

text \<open>Trees of the shape the grammar produces, for the concrete instances below.\<close>

definition tok :: "string \<Rightarrow> node" where
  "tok s = TerminalNode OTHER s"

text \<open>\<^verbatim>\<open>Timeout(v)\<close>\<close>

definition timeout_node :: "string \<Rightarrow> node" where
  "timeout_node v = RuleNode TimeoutContext [tok ''Timeout'', tok ''('', tok v, tok '')'']"

text \<open>\<^verbatim>\<open>MessageContent(l c r)\<close>\<close>

definition comparison_node :: "string \<Rightarrow> string \<Rightarrow> string \<Rightarrow> node" where
  "comparison_node l c r =
     RuleNode MessageContentContext [tok ''MessageContent'', tok ''('', tok l, tok c, tok r, tok '')'']"

text \<open>\<^verbatim>\<open>MessageContent(a)\<close>\<close>

definition presence_node :: "string \<Rightarrow> node" where
  "presence_node a = RuleNode MessageContentContext [tok ''MessageContent'', tok ''('', tok a, tok '')'']"

definition term_node :: "node \<Rightarrow> node" where
  "term_node opn = RuleNode TermOrWhenContext [RuleNode TermContext [opn]]"

text \<open>\<^verbatim>\<open>kind nm { rolePlayer = application terms { ... } onBreach(log(m)) }\<close>\<close>

definition clause_node :: "string \<Rightarrow> string \<Rightarrow> node list \<Rightarrow> node" where
  "clause_node kind nm ops =
     RuleNode ClauseContext
       [tok kind, TerminalNode ID nm, tok ''{'',
        RuleNode RolePlayerContext [tok ''rolePlayer'', tok ''='', tok ''application''],
        RuleNode TermsContext ([tok ''terms'', tok ''{''] @ map term_node ops @ [tok ''}'']),
        RuleNode OnBreachContext
          [tok ''onBreach'', tok ''('', tok ''log'', tok ''('', tok ''late'', tok '')'', tok '')''],
        tok ''}'']"

definition contract_node :: "node list \<Rightarrow> node list \<Rightarrow> node" where
  "contract_node vs cls =
     RuleNode ContractContext
       [tok ''contract'', TerminalNode ID ''delivery'', tok ''{'',
        RuleNode VariablesContext ([tok ''variables'', tok ''{''] @ vs @ [tok ''}'']),
        RuleNode DatesContext
          [tok ''dates'', tok ''{'',
           RuleNode BeginDateContext
             [tok ''beginDate'', tok ''='', RuleNode DatetimeContext [tok ''2024-01-01'']],
           RuleNode DueDateContext
             [tok ''dueDate'', tok ''='', RuleNode DatetimeContext [tok ''2025-01-01'']],
           tok ''}''],
        RuleNode PartiesContext
          [tok ''parties'', tok ''{'',
           RuleNode ApplicationContext [tok ''application'', tok ''='', tok ''shop''],
           RuleNode ProcessContext [tok ''process'', tok ''='', tok ''carrier''],
           tok ''}''],
        RuleNode ClausesContext ([tok ''clauses'', tok ''{''] @ cls @ [tok ''}'']),
        tok ''}'']"

text \<open>A listener whose walk never throws.\<close>

definition silent :: "node \<Rightarrow> error option" where
  "silent t = None"

text \<open>The clause
  \<^verbatim>\<open>right requestDelivery { ... Timeout(86400), MessageContent(amount > 100),
  MessageContent(status == "D"), MessageContent("w"), MessageContent(1 < 2) ... }\<close>
  and a contract that holds it.\<close>

definition example_clause_node :: node where
  "example_clause_node =
     clause_node ''right'' ''requestDelivery''
       [timeout_node ''86400'',
        comparison_node ''amount'' ''>'' ''100'',
        comparison_node ''status'' ''=='' [CHR 0x22, CHR ''D'', CHR 0x22],
        presence_node [CHR 0x22, CHR ''w'', CHR 0x22],
        comparison_node ''1'' ''<'' ''2'']"

definition example_tree :: node where
  "example_tree =
     contract_node
       [RuleNode VariableStatementContext
          [tok ''weight'', tok ''='', RuleNode TermContext [presence_node ''x'']]]
       [example_clause_node]"

text \<open>What \<^verbatim>\<open>parse\<close> returns for it.\<close>

definition example_name :: "string \<Rightarrow> string \<Rightarrow> identifier_name" where
  "example_name ty index =
     \<lparr>pascal = ''RightRequestDelivery'' @ capitalizeFirst ty @ index,
      camel = ''rightRequestDelivery'' @ capitalizeFirst ty @ index,
      snake = ''right_requestDelivery_'' @ ty @ ''_'' @ index\<rparr>"

definition example_amount :: variable where
  "example_amount =
     \<lparr>name = \<lparr>pascal = ''Amount'', camel = ''amount'', snake = ''amount''\<rparr>, vtype = ''NUMBER''\<rparr>"

definition example_status :: variable where
  "example_status =
     \<lparr>name = \<lparr>pascal = ''Status'', camel = ''status'', snake = ''status''\<rparr>, vtype = ''TEXT''\<rparr>"

definition example_quoted :: variable where
  "example_quoted =
     \<lparr>name = \<lparr>pascal = ''MessageContent22'', camel = ''messageContent22'',
               snake = ''messageContent_2_2''\<rparr>, vtype = ''TEXT''\<rparr>"

definition example_presence :: variable where
  "example_presence =
     \<lparr>name = \<lparr>pascal = ''MessageContent3'', camel = ''messageContent3'',
               snake = ''messageContent_3''\<rparr>, vtype = ''boolean''\<rparr>"

definition example_terms :: "clause_term list" where
  "example_terms =
     [TimeoutTerm (example_name ''timeout'' ''0'') ''86400'',
      ComparisonTerm (example_name ''messageContent'' ''1'') (Text ''>'')
        [Var example_amount, Text ''100''],
      ComparisonTerm (example_name ''messageContent'' ''2'') (Text ''=='')
        [Var example_status, Var example_quoted],
      MessageContentTerm (example_name ''messageContent'' ''3'') [Var example_presence],
      ComparisonTerm (example_name ''messageContent'' ''4'') (Text ''<'')
        [Text ''1'', Text ''2'']]"

definition example_clause :: clause where
  "example_clause =
     \<lparr>clause_name = \<lparr>pascal = ''RightRequestDelivery'', camel = ''rightRequestDelivery'',
                      snake = ''right_requestDelivery''\<rparr>,
      clause_type = ''right'',
      clause_variables = [example_amount, example_status, example_quoted, example_presence],
      rolePlayer = Some ''application'',
      operation = Some ''application'',
      clause_terms = example_terms,
      clause_messages = \<lparr>error_message = ''late'', success_message = []\<rparr>\<rparr>"

text \<open>The locals of the clause callback when the traversal of the clause ends.\<close>

definition example_state :: clause_state where
  "example_state =
     \<lparr>terms = example_terms,
      vars = [(''amount'', example_amount), (''status'', example_status),
              (''messageContent22'', example_quoted), (''messageContent3'', example_presence)],
      messages_error = ''late'',
      termIndex = 5\<rparr>"

definition example_contract :: contract where
  "example_contract =
     \<lparr>contract_name = ''delivery'', beginDate = ''2024-01-01'', dueDate = ''2025-01-01'',
      application = ''shop'', process = ''carrier'', variables = [],
      clauses = [example_clause]\<rparr>"

section \<open>Reading the result\<close>

text \<open>The Variables among the entries of a term's \<^verbatim>\<open>variables\<close> array, in order; a Timeout
  term has none.\<close>

fun parameter_variables :: "parameter list \<Rightarrow> variable list" where
  "parameter_variables [] = []"
| "parameter_variables (Var v # ps) = v # parameter_variables ps"
| "parameter_variables (Text s # ps) = parameter_variables ps"
| "parameter_variables (Undefined # ps) = parameter_variables ps"

fun term_variables :: "clause_term \<Rightarrow> variable list" where
  "term_variables (TimeoutTerm n v) = []"
| "term_variables (MessageContentTerm n ps) = parameter_variables ps"
| "term_variables (ComparisonTerm n cmp ps) = parameter_variables ps"

section \<open>Reading the tree\<close>

text \<open>The children of those nodes of a list that are of class \<open>k\<close>.\<close>

definition sub_nodes :: "rule_context \<Rightarrow> node list \<Rightarrow> node list" where
  "sub_nodes k ns = concat (map children (filter (\<lambda>n. instanceof n k) ns))"

text \<open>The nodes of a clause that stand where an operation stands: the children of the term
  nodes under the term-or-when nodes under the terms-blocks of the clause.\<close>

definition operation_nodes :: "node \<Rightarrow> node list" where
  "operation_nodes c =
     sub_nodes TermContext (sub_nodes TermOrWhenContext (sub_nodes TermsContext (children c)))"

definition message_content_nodes :: "node list \<Rightarrow> node list" where
  "message_content_nodes ns = filter (\<lambda>n. instanceof n MessageContentContext) ns"

fun is_TimeoutTerm :: "clause_term \<Rightarrow> bool" where
  "is_TimeoutTerm (TimeoutTerm n v) = True"
| "is_TimeoutTerm (MessageContentTerm n ps) = False"
| "is_TimeoutTerm (ComparisonTerm n cmp ps) = False"

text \<open>The term index stands at the number of Timeout terms pushed so far plus \<open>k\<close>.\<close>

definition index_counts :: "nat \<Rightarrow> clause_state \<Rightarrow> bool" where
  "index_counts k s \<longleftrightarrow> termIndex s = length (filter is_TimeoutTerm (terms s)) + k"

text \<open>The clause nodes of a contract node: the clause children of its clauses-blocks.\<close>

definition clause_nodes :: "node \<Rightarrow> node list" where
  "clause_nodes tree =
     filter (\<lambda>n. instanceof n ClauseContext) (sub_nodes ClausesContext (children tree))"

text \<open>The children of the timeout nodes of a clause whose raw text passes the number guard,
  in source order.\<close>

definition timeout_operands :: "node \<Rightarrow> node list" where
  "timeout_operands c =
     filter (\<lambda>t. isNumber (node_text t)) (sub_nodes TimeoutContext (operation_nodes c))"

text \<open>The \<^verbatim>\<open>value\<close> fields of the Timeout terms of a list of terms, in order.\<close>

fun timeout_values :: "clause_term list \<Rightarrow> string list" where
  "timeout_values [] = []"
| "timeout_values (TimeoutTerm n v # ts) = v # timeout_values ts"
| "timeout_values (MessageContentTerm n ps # ts) = timeout_values ts"
| "timeout_values (ComparisonTerm n cmp ps # ts) = timeout_values ts"

text \<open>The Timeout terms pushed so far carry the values \<open>vs\<close>.\<close>

definition values_are :: "string list \<Rightarrow> clause_state \<Rightarrow> bool" where
  "values_are vs s \<longleftrightarrow> timeout_values (terms s) = vs"

text \<open>The raw texts of those nodes of a list that pass the number guard.\<close>

definition numeric_texts :: "node list \<Rightarrow> string list" where
  "numeric_texts ns = map node_text (filter (\<lambda>t. isNumber (node_text t)) ns)"

text \<open>The clauses pushed so far are the lowerings of the clause nodes \<open>ns\<close>, in order.\<close>

definition clauses_are :: "node list \<Rightarrow> parse_state \<Rightarrow> bool" where
  "clauses_are ns s \<longleftrightarrow> list_all2 (\<lambda>cl n. lower_clause n = Inr cl) (st_clauses s) ns"

text \<open>The \<^verbatim>\<open>name\<close> and \<^verbatim>\<open>type\<close> fields of a term.\<close>

fun term_name_of :: "clause_term \<Rightarrow> identifier_name" where
  "term_name_of (TimeoutTerm n v) = n"
| "term_name_of (MessageContentTerm n ps) = n"
| "term_name_of (ComparisonTerm n cmp ps) = n"

fun term_type :: "clause_term \<Rightarrow> string" where
  "term_type (TimeoutTerm n v) = ''timeout''"
| "term_type (MessageContentTerm n ps) = ''messageContent''"
| "term_type (ComparisonTerm n cmp ps) = ''messageContent''"

text \<open>A clause \<^verbatim>\<open>right wait { ... \<close> whose terms are a timeout node with six children, two of
  them numerals and one with the empty text, then \<^verbatim>\<open>MessageContent(x)\<close>, then
  \<^verbatim>\<open>Timeout(30)\<close>; and a contract that holds it.\<close>

definition wide_timeout_node :: node where
  "wide_timeout_node =
     RuleNode TimeoutContext [tok ''Timeout'', tok ''('', tok ''10'', tok [], tok ''20'', tok '')'']"

definition timeout_clause_node :: node where
  "timeout_clause_node =
     clause_node ''right'' ''wait'' [wide_timeout_node, presence_node ''x'', timeout_node ''30'']"

definition timeout_tree :: node where
  "timeout_tree = contract_node [] [timeout_clause_node]"

definition wait_name :: "string \<Rightarrow> string \<Rightarrow> string \<Rightarrow> identifier_name" where
  "wait_name pascal_type snake_type index =
     \<lparr>pascal = ''RightWait'' @ pascal_type @ index,
      camel = ''rightWait'' @ pascal_type @ index,
      snake = ''right_wait_'' @ snake_type @ ''_'' @ index\<rparr>"

definition timeout_clause :: clause where
  "timeout_clause =
     \<lparr>clause_name = \<lparr>pascal = ''RightWait'', camel = ''rightWait'', snake = ''right_wait''\<rparr>,
      clause_type = ''right'',
      clause_variables =
        [\<lparr>name = \<lparr>pascal = ''MessageContent3'', camel = ''messageContent3'',
                   snake = ''messageContent_3''\<rparr>, vtype = ''boolean''\<rparr>],
      rolePlayer = Some ''application'',
      operation = Some ''application'',
      clause_terms =
        [TimeoutTerm (wait_name ''Timeout'' ''timeout'' ''0'') ''10'',
         TimeoutTerm (wait_name ''Timeout'' ''timeout'' ''1'') [],
         TimeoutTerm (wait_name ''Timeout'' ''timeout'' ''2'') ''20'',
         MessageContentTerm (wait_name ''MessageContent'' ''messageContent'' ''3'')
           [Var \<lparr>name = \<lparr>pascal = ''MessageContent3'', camel = ''messageContent3'',
                          snake = ''messageContent_3''\<rparr>, vtype = ''boolean''\<rparr>],
         TimeoutTerm (wait_name ''Timeout'' ''timeout'' ''4'') ''30''],
      clause_messages = \<lparr>error_message = ''late'', success_message = []\<rparr>\<rparr>"

definition timeout_contract :: contract where
  "timeout_contract =
     \<lparr>contract_name = ''delivery'', beginDate = ''2024-01-01'', dueDate = ''2025-01-01'',
      application = ''shop'', process = ''carrier'', variables = [],
      clauses = [timeout_clause]\<rparr>"

section \<open>The variables of a clause, as the spec words them\<close>

text \<open>The Variables discovered across the terms of a clause, in discovery order.\<close>

definition discovered :: "clause_term list \<Rightarrow> variable list" where
  "discovered ts = concat (map term_variables ts)"

definition camel_of :: "variable \<Rightarrow> string" where
  "camel_of v = camel (name v)"

text \<open>The keys of a list in the order of their first occurrence.\<close>

definition first_occurrences :: "string list \<Rightarrow> string list" where
  "first_occurrences ks = rev (remdups (rev ks))"

text \<open>Deduplication by camel name: one entry per camel name, in first-discovery order,
  each the latest Variable discovered under that name.\<close>

definition dedup_by_camel :: "variable list \<Rightarrow> variable list" where
  "dedup_by_camel vs =
     map (\<lambda>k. last (filter (\<lambda>v. camel_of v = k) vs)) (first_occurrences (map camel_of vs))"

text \<open>A clause that refers to the variable \<^verbatim>\<open>amount\<close> twice, under comparators of different
  inferred types: \<^verbatim>\<open>MessageContent(amount > 5)\<close>, \<^verbatim>\<open>MessageContent(amount == "x")\<close>.\<close>

definition twice_tree :: node where
  "twice_tree =
     contract_node []
       [clause_node ''right'' ''pay''
          [comparison_node ''amount'' ''>'' ''5'',
           comparison_node ''amount'' ''=='' [CHR 0x22, CHR ''x'', CHR 0x22]]]"

definition amount_number :: variable where
  "amount_number =
     \<lparr>name = \<lparr>pascal = ''Amount'', camel = ''amount'', snake = ''amount''\<rparr>, vtype = ''NUMBER''\<rparr>"

definition amount_text :: variable where
  "amount_text =
     \<lparr>name = \<lparr>pascal = ''Amount'', camel = ''amount'', snake = ''amount''\<rparr>, vtype = ''TEXT''\<rparr>"

definition quoted_x :: variable where
  "quoted_x =
     \<lparr>name = \<lparr>pascal = ''MessageContent12'', camel = ''messageContent12'',
               snake = ''messageContent_1_2''\<rparr>, vtype = ''TEXT''\<rparr>"

definition twice_clause :: clause where
  "twice_clause =
     \<lparr>clause_name = \<lparr>pascal = ''RightPay'', camel = ''rightPay'', snake = ''right_pay''\<rparr>,
      clause_type = ''right'',
      clause_variables = [amount_text, quoted_x],
      rolePlayer = Some ''application'',
      operation = Some ''application'',
      clause_terms =
        [ComparisonTerm \<lparr>pascal = ''RightPayMessageContent0'', camel = ''rightPayMessageContent0'',
                         snake = ''right_pay_messageContent_0''\<rparr>
           (Text ''>'') [Var amount_number, Text ''5''],
         ComparisonTerm \<lparr>pascal = ''RightPayMessageContent1'', camel = ''rightPayMessageContent1'',
                         snake = ''right_pay_messageContent_1''\<rparr>
           (Text ''=='') [Var amount_text, Var quoted_x]],
      clause_messages = \<lparr>error_message = ''late'', success_message = []\<rparr>\<rparr>"

definition twice_contract :: contract where
  "twice_contract =
     \<lparr>contract_name = ''delivery'', beginDate = ''2024-01-01'', dueDate = ''2025-01-01'',
      application = ''shop'', process = ''carrier'', variables = [],
      clauses = [twice_clause]\<rparr>"

section \<open>How the traversal reaches the clauses\<close>

lemma forEach_invariant:
  assumes "forEach f xs s = Inr s'" and "P s"
    and step: "\<And>s x s'. P s \<Longrightarrow> x \<in> set xs \<Longrightarrow> f s x = Inr s' \<Longrightarrow> P s'"
  shows "P s'"
  using assms(1,2) step
proof (induction xs arbitrary: s)
  case Nil
  then show ?case by simp
next
  case (Cons x xs)
  from Cons.prems(1) obtain s1 where s1: "f s x = Inr s1" and rest: "forEach f xs s1 = Inr s'"
    by (cases "f s x") simp_all
  have x: "x \<in> set (x # xs)" by simp
  have p1: "P s1" by (rule Cons.prems(3) [OF Cons.prems(2) x s1])
  show ?case
  proof (rule Cons.IH [OF rest p1])
    fix t y t'
    assume "P t" "y \<in> set xs" "f t y = Inr t'"
    then show "P t'" using Cons.prems(3) [of t y t'] by simp
  qed
qed

lemma forEach_append:
  "forEach f (xs @ ys) s = (case forEach f xs s of Inl e \<Rightarrow> Inl e | Inr s' \<Rightarrow> forEach f ys s')"
  by (induction xs arbitrary: s) (simp_all split: sum.splits)

lemma fold_invariant:
  assumes "P s" and "\<And>s x. P s \<Longrightarrow> x \<in> set xs \<Longrightarrow> P (f x s)"
  shows "P (fold f xs s)"
  using assms by (induction xs arbitrary: s) simp_all

lemma date_child_clauses: "st_clauses (date_child st d) = st_clauses st"
proof -
  have a: "\<And>xs s. st_clauses (fold (\<lambda>b s. if instanceof b DatetimeContext
                                   then s\<lparr>st_beginDate := node_text b\<rparr> else s) xs s) = st_clauses s"
    subgoal for xs s by (induction xs arbitrary: s) simp_all
    done
  have b: "\<And>xs s. st_clauses (fold (\<lambda>b s. if instanceof b DatetimeContext
                                   then s\<lparr>st_dueDate := node_text b\<rparr> else s) xs s) = st_clauses s"
    subgoal for xs s by (induction xs arbitrary: s) simp_all
    done
  show ?thesis by (simp add: date_child_def Let_def a b)
qed

lemma dates_clauses: "st_clauses (fold (\<lambda>d s. date_child s d) xs st) = st_clauses st"
  by (induction xs arbitrary: st) (simp_all add: date_child_clauses)

lemma party_child_clauses: "party_child st p = Inr st' \<Longrightarrow> st_clauses st' = st_clauses st"
  by (auto simp: party_child_def split: if_splits sum.splits)

lemma parties_clauses: "forEach party_child xs st = Inr st' \<Longrightarrow> st_clauses st' = st_clauses st"
  by (rule forEach_invariant [where P = "\<lambda>s. st_clauses s = st_clauses st"])
     (auto dest: party_child_clauses)

lemma clauses_child_lowered:
  assumes "clauses_child st c = Inr st'" and "\<forall>cl \<in> set (st_clauses st). \<exists>n. lower_clause n = Inr cl"
  shows "\<forall>cl \<in> set (st_clauses st'). \<exists>n. lower_clause n = Inr cl"
  using assms by (auto simp: clauses_child_def split: if_splits sum.splits)

lemma contract_child_lowered:
  assumes "contract_child st item = Inr st'" and "\<forall>cl \<in> set (st_clauses st). \<exists>n. lower_clause n = Inr cl"
  shows "\<forall>cl \<in> set (st_clauses st'). \<exists>n. lower_clause n = Inr cl"
proof -
  let ?P = "\<lambda>s. \<forall>cl \<in> set (st_clauses s). \<exists>n. lower_clause n = Inr cl"
  let ?st1 = "if instanceof item DatesContext then fold (\<lambda>d s. date_child s d) (children item) st else st"
  have p1: "?P ?st1" using assms(2) by (simp add: dates_clauses)
  from assms(1) obtain st2 where
    st2: "(if instanceof item PartiesContext then forEach party_child (children item) ?st1 else Inr ?st1) = Inr st2"
    and fin: "(if instanceof item ClausesContext then forEach clauses_child (children item) st2 else Inr st2) = Inr st'"
    by (auto simp: contract_child_def Let_def split: sum.splits)
  have "st_clauses st2 = st_clauses ?st1"
    using st2 by (auto split: if_splits dest: parties_clauses)
  then have p2: "?P st2" using p1 by simp
  show ?thesis
  proof (cases "instanceof item ClausesContext")
    case True
    then have "forEach clauses_child (children item) st2 = Inr st'" using fin by simp
    then show ?thesis
      by (rule forEach_invariant [where P = ?P]) (use p2 clauses_child_lowered in blast)+
  next
    case False
    then show ?thesis using fin p2 by simp
  qed
qed

lemma canonicalize_clause_lowered:
  assumes "canonicalize tree = Inr c" and "cl \<in> set (clauses c)"
  shows "\<exists>n. lower_clause n = Inr cl"
proof -
  from assms(1) obtain st where st: "forEach contract_child (children tree) initial_parse_state = Inr st"
    and c: "clauses c = st_clauses st"
    by (auto simp: canonicalize_def Let_def split: sum.splits)
  have "\<forall>cl \<in> set (st_clauses st). \<exists>n. lower_clause n = Inr cl"
    by (rule forEach_invariant [OF st, where P = "\<lambda>s. \<forall>cl \<in> set (st_clauses s). \<exists>n. lower_clause n = Inr cl"])
       (use contract_child_lowered in \<open>auto simp: initial_parse_state_def\<close>)
  then show ?thesis using assms(2) c by simp
qed

lemma parse_clause_lowered:
  assumes "parse listener tree = Inr c" and "cl \<in> set (clauses c)"
  shows "\<exists>n. lower_clause n = Inr cl"
  using assms canonicalize_clause_lowered by (auto simp: parse_def split: option.splits)

lemma lower_clause_Inr:
  assumes "lower_clause c = Inr cl"
  obtains clauseType idn rp st where
    "child_text_or_empty (children c) 0 = Inr clauseType"
    "tryGetID c = Some idn"
    "rolePlayer_text c = Inr rp"
    "lower_terms (clauseName_of clauseType (node_text idn)) c = Inr st"
    "cl = \<lparr>clause_name = clauseName_of clauseType (node_text idn),
           clause_type = clauseType,
           clause_variables = map snd (vars st),
           rolePlayer = rp,
           operation = rp,
           clause_terms = terms st,
           clause_messages = \<lparr>error_message = messages_error st, success_message = []\<rparr>\<rparr>"
proof (cases "child_text_or_empty (children c) 0")
  case (Inl e)
  then show ?thesis using assms by (simp add: lower_clause_def)
next
  case ct: (Inr clauseType)
  show ?thesis
  proof (cases "tryGetID c")
    case None
    then show ?thesis using assms ct by (simp add: lower_clause_def)
  next
    case idn: (Some idn)
    show ?thesis
    proof (cases "rolePlayer_text c")
      case (Inl e)
      then show ?thesis using assms ct idn by (simp add: lower_clause_def)
    next
      case rp: (Inr rp)
      show ?thesis
      proof (cases "lower_terms (clauseName_of clauseType (node_text idn)) c")
        case (Inl e)
        then show ?thesis using assms ct idn rp by (simp add: lower_clause_def)
      next
        case st: (Inr st)
        have "cl = \<lparr>clause_name = clauseName_of clauseType (node_text idn),
           clause_type = clauseType,
           clause_variables = map snd (vars st),
           rolePlayer = rp,
           operation = rp,
           clause_terms = terms st,
           clause_messages = \<lparr>error_message = messages_error st, success_message = []\<rparr>\<rparr>"
          using assms ct idn rp st by (simp add: lower_clause_def)
        then show ?thesis using that ct idn rp st by blast
      qed
    qed
  qed
qed

lemma lower_clause_operation: "lower_clause n = Inr cl \<Longrightarrow> operation cl = rolePlayer cl"
  by (erule lower_clause_Inr) simp

lemma parse_example: "parse silent example_tree = Inr example_contract"
  by code_simp

lemma clauses_example: "clauses example_contract = [example_clause]"
  by (simp add: example_contract_def)

section \<open>How the traversal of a clause changes its locals\<close>

lemma operation_child_invariant:
  assumes run: "operation_child cn s opn = Inr s'" and p: "P s"
    and tmo: "\<And>s t. P s \<Longrightarrow> P (timeout_child cn s t)"
    and msg: "\<And>s opn s'. P s \<Longrightarrow> message_content cn s opn = Inr s' \<Longrightarrow> P s'"
  shows "P s'"
proof -
  let ?s1 = "if instanceof opn TimeoutContext
             then fold (\<lambda>t s. timeout_child cn s t) (children opn) s else s"
  have "P (fold (\<lambda>t s. timeout_child cn s t) (children opn) s)"
  proof (rule fold_invariant [where P = P])
    show "P s" by (rule p)
  next
    fix u x assume "P u"
    then show "P (timeout_child cn u x)" by (rule tmo)
  qed
  then have p1: "P ?s1" using p by simp
  from run have r: "(if instanceof opn MessageContentContext then message_content cn ?s1 opn
         else Inr ?s1) = Inr s'"
    by (simp add: operation_child_def Let_def)
  show ?thesis
  proof (cases "instanceof opn MessageContentContext")
    case True
    with r have "message_content cn ?s1 opn = Inr s'" by simp
    then show ?thesis by (rule msg [OF p1])
  next
    case False
    with r have "s' = ?s1" by simp
    then show ?thesis using p1 by simp
  qed
qed

lemma term_child_invariant:
  assumes run: "term_child cn s tm = Inr s'" and p: "P s"
    and tmo: "\<And>s t. P s \<Longrightarrow> P (timeout_child cn s t)"
    and msg: "\<And>s opn s'. P s \<Longrightarrow> message_content cn s opn = Inr s' \<Longrightarrow> P s'"
  shows "P s'"
proof (cases "instanceof tm TermContext")
  case True
  with run have fe: "forEach (operation_child cn) (children tm) s = Inr s'"
    by (simp add: term_child_def)
  show ?thesis
  proof (rule forEach_invariant [where P = P])
    show "forEach (operation_child cn) (children tm) s = Inr s'" by (rule fe)
  next
    show "P s" by (rule p)
  next
    fix t y t'
    assume "P t" "operation_child cn t y = Inr t'"
    then show "P t'" using operation_child_invariant [of cn t y t' P] tmo msg by blast
  qed
next
  case False
  with run p show ?thesis by (simp add: term_child_def)
qed

lemma terms_child_invariant:
  assumes run: "terms_child cn s ts = Inr s'" and p: "P s"
    and tmo: "\<And>s t. P s \<Longrightarrow> P (timeout_child cn s t)"
    and msg: "\<And>s opn s'. P s \<Longrightarrow> message_content cn s opn = Inr s' \<Longrightarrow> P s'"
  shows "P s'"
proof (cases "instanceof ts TermOrWhenContext")
  case True
  with run have fe: "forEach (term_child cn) (children ts) s = Inr s'"
    by (simp add: terms_child_def)
  show ?thesis
  proof (rule forEach_invariant [where P = P])
    show "forEach (term_child cn) (children ts) s = Inr s'" by (rule fe)
  next
    show "P s" by (rule p)
  next
    fix t y t'
    assume "P t" "term_child cn t y = Inr t'"
    then show "P t'" using term_child_invariant [of cn t y t' P] tmo msg by blast
  qed
next
  case False
  with run p show ?thesis by (simp add: terms_child_def)
qed

lemma clause_child_invariant:
  assumes run: "clause_child cn s c = Inr s'" and p: "P s"
    and tmo: "\<And>s t. P s \<Longrightarrow> P (timeout_child cn s t)"
    and msg: "\<And>s opn s'. P s \<Longrightarrow> message_content cn s opn = Inr s' \<Longrightarrow> P s'"
    and brk: "\<And>s m. P s \<Longrightarrow> P (s\<lparr>messages_error := m\<rparr>)"
  shows "P s'"
proof (cases "instanceof c OnBreachContext")
  case True
  with run obtain m where "s' = s\<lparr>messages_error := m\<rparr>"
    by (auto simp: clause_child_def split: sum.splits)
  then show ?thesis using brk [OF p] by simp
next
  case nb: False
  show ?thesis
  proof (cases "instanceof c TermsContext")
    case True
    with run nb have fe: "forEach (terms_child cn) (children c) s = Inr s'"
      by (simp add: clause_child_def)
    show ?thesis
    proof (rule forEach_invariant [where P = P])
      show "forEach (terms_child cn) (children c) s = Inr s'" by (rule fe)
    next
      show "P s" by (rule p)
    next
      fix t y t'
      assume "P t" "terms_child cn t y = Inr t'"
      then show "P t'" using terms_child_invariant [of cn t y t' P] tmo msg by blast
    qed
  next
    case False
    with run nb p show ?thesis by (simp add: clause_child_def)
  qed
qed

lemma lower_terms_invariant:
  assumes run: "lower_terms cn c = Inr st" and init: "P initial_state"
    and tmo: "\<And>s t. P s \<Longrightarrow> P (timeout_child cn s t)"
    and msg: "\<And>s opn s'. P s \<Longrightarrow> message_content cn s opn = Inr s' \<Longrightarrow> P s'"
    and brk: "\<And>s m. P s \<Longrightarrow> P (s\<lparr>messages_error := m\<rparr>)"
  shows "P st"
proof -
  from run have fe: "forEach (clause_child cn) (children c) initial_state = Inr st"
    by (simp add: lower_terms_def)
  show ?thesis
  proof (rule forEach_invariant [where P = P])
    show "forEach (clause_child cn) (children c) initial_state = Inr st" by (rule fe)
  next
    show "P initial_state" by (rule init)
  next
    fix t y t'
    assume "P t" "clause_child cn t y = Inr t'"
    then show "P t'" using clause_child_invariant [of cn t y t' P] tmo msg brk by blast
  qed
qed

text \<open>What \<^verbatim>\<open>parseMessageContent\<close> can return.\<close>

lemma operand_cases:
  "(\<exists>s. operand val i pos ty = Text s \<and> isNumber s) \<or>
   (\<exists>v. operand val i pos ty = Var v \<and> vtype v = ty)"
  by (simp add: operand_def anonymous_def split: option.splits)

lemma parseMessageContent_cases:
  assumes "parseMessageContent term i = Inr ps"
  shows "(childCount term = 4 \<and> (\<exists>v. ps = [Var v] \<and> vtype v = ''boolean'')) \<or>
         (childCount term \<noteq> 4 \<and>
          (\<exists>cmp. child_text (children term) 3 = Inr cmp \<and>
             ps = [operand (index_opt (children term) 2) i ''1'' (inferred_type cmp),
                   (case cmp of None \<Rightarrow> Undefined | Some c \<Rightarrow> Text c),
                   operand (index_opt (children term) 4) i ''2'' (inferred_type cmp)]))"
proof (cases "childCount term = 4")
  case True
  with assms show ?thesis by (auto simp: parseMessageContent_def)
next
  case False
  with assms show ?thesis
    by (cases "child_text (children term) 3") (simp_all add: parseMessageContent_def Let_def)
qed

text \<open>What the message-content branch does to the locals.\<close>

lemma message_content_cases:
  assumes "message_content cn s opn = Inr s'"
  shows
    "(childCount opn = 4 \<and>
      (\<exists>v. vtype v = ''boolean'' \<and>
           s' = s\<lparr>vars := assign (camel (name v)) v (vars s),
                  terms := terms s @ [MessageContentTerm (term_name cn ''messageContent'' (termIndex s)) [Var v]],
                  termIndex := termIndex s + 1\<rparr>)) \<or>
     (childCount opn \<noteq> 4 \<and>
      (\<exists>cmp. child_text (children opn) 3 = Inr cmp \<and>
         s' = s\<lparr>vars := merge_parameter (operand (index_opt (children opn) 4) (termIndex s) ''2'' (inferred_type cmp))
                           (merge_parameter (operand (index_opt (children opn) 2) (termIndex s) ''1'' (inferred_type cmp)) (vars s)),
                terms := terms s @
                  [ComparisonTerm (term_name cn ''messageContent'' (termIndex s))
                     (case cmp of None \<Rightarrow> Undefined | Some c \<Rightarrow> Text c)
                     [operand (index_opt (children opn) 2) (termIndex s) ''1'' (inferred_type cmp),
                      operand (index_opt (children opn) 4) (termIndex s) ''2'' (inferred_type cmp)]],
                termIndex := termIndex s + 1\<rparr>))"
proof -
  from assms obtain ps where ps: "parseMessageContent opn (termIndex s) = Inr ps"
    by (cases "parseMessageContent opn (termIndex s)") (simp_all add: message_content_def Let_def)
  from parseMessageContent_cases [OF ps] show ?thesis
  proof (elim disjE conjE exE)
    fix v assume a: "childCount opn = 4" "ps = [Var v]" "vtype v = ''boolean''"
    have "s' = s\<lparr>vars := assign (camel (name v)) v (vars s),
                  terms := terms s @ [MessageContentTerm (term_name cn ''messageContent'' (termIndex s)) [Var v]],
                  termIndex := termIndex s + 1\<rparr>"
      using assms ps a by (simp add: message_content_def Let_def)
    then show ?thesis using a by blast
  next
    fix cmp
    assume a: "childCount opn \<noteq> 4" "child_text (children opn) 3 = Inr cmp"
      "ps = [operand (index_opt (children opn) 2) (termIndex s) ''1'' (inferred_type cmp),
             (case cmp of None \<Rightarrow> Undefined | Some c \<Rightarrow> Text c),
             operand (index_opt (children opn) 4) (termIndex s) ''2'' (inferred_type cmp)]"
    have "s' = s\<lparr>vars := merge_parameter (operand (index_opt (children opn) 4) (termIndex s) ''2'' (inferred_type cmp))
                           (merge_parameter (operand (index_opt (children opn) 2) (termIndex s) ''1'' (inferred_type cmp)) (vars s)),
                terms := terms s @
                  [ComparisonTerm (term_name cn ''messageContent'' (termIndex s))
                     (case cmp of None \<Rightarrow> Undefined | Some c \<Rightarrow> Text c)
                     [operand (index_opt (children opn) 2) (termIndex s) ''1'' (inferred_type cmp),
                      operand (index_opt (children opn) 4) (termIndex s) ''2'' (inferred_type cmp)]],
                termIndex := termIndex s + 1\<rparr>"
      using assms ps a(3) by (simp add: message_content_def Let_def)
    then show ?thesis using a by blast
  qed
qed

lemma timeout_child_cases:
  "timeout_child cn s t = s \<or>
   timeout_child cn s t =
     s\<lparr>termIndex := termIndex s + 1,
       terms := terms s @ [TimeoutTerm (term_name cn ''timeout'' (termIndex s)) (node_text t)]\<rparr>"
  by (simp add: timeout_child_def)

text \<open>A property of every term of every clause of the result follows from the two places
  that push a term.\<close>

lemma parse_terms_invariant:
  assumes run: "parse listener tree = Inr c" and cl: "cl \<in> set (clauses c)"
    and tm: "tm \<in> set (clause_terms cl)"
    and tmo: "\<And>n v. Q (TimeoutTerm n v)"
    and msg: "\<And>cn s opn s'. message_content cn s opn = Inr s' \<Longrightarrow> Q (last (terms s'))"
  shows "Q tm"
proof -
  from parse_clause_lowered [OF run cl] obtain n where n: "lower_clause n = Inr cl" ..
  from n obtain cn st where st: "lower_terms cn n = Inr st" and t: "clause_terms cl = terms st"
    by (rule lower_clause_Inr) simp
  have "\<forall>x \<in> set (terms st). Q x"
  proof (rule lower_terms_invariant [OF st, where P = "\<lambda>s. \<forall>x \<in> set (terms s). Q x"])
    show "\<forall>x \<in> set (terms initial_state). Q x" by (simp add: initial_state_def)
  next
    fix s :: clause_state and t assume "\<forall>x \<in> set (terms s). Q x"
    then show "\<forall>x \<in> set (terms (timeout_child cn s t)). Q x"
      using timeout_child_cases [of cn s t] tmo by auto
  next
    fix s :: clause_state and opn s'
    assume a: "\<forall>x \<in> set (terms s). Q x" "message_content cn s opn = Inr s'"
    from message_content_cases [OF a(2)] obtain x where "terms s' = terms s @ [x]"
      by auto
    moreover from this msg [OF a(2)] have "Q x" by simp
    ultimately show "\<forall>x \<in> set (terms s'). Q x" using a(1) by auto
  next
    fix s :: clause_state and m assume "\<forall>x \<in> set (terms s). Q x"
    then show "\<forall>x \<in> set (terms (s\<lparr>messages_error := m\<rparr>)). Q x" by simp
  qed
  then show ?thesis using tm t by simp
qed

section \<open>C1: the types of synthesized variables\<close>

lemma inferred_type_comparator:
  "inferred_type cmp =
     (if (case cmp of None \<Rightarrow> Undefined | Some c \<Rightarrow> Text c) = Text ''==''
         \<or> (case cmp of None \<Rightarrow> Undefined | Some c \<Rightarrow> Text c) = Text ''!=''
      then ''TEXT'' else ''NUMBER'')"
  by (cases cmp) (simp_all add: inferred_type_def)

lemma message_content_typed:
  assumes "message_content cn s opn = Inr s'"
  shows "case last (terms s') of
           TimeoutTerm n v \<Rightarrow> True
         | MessageContentTerm n ps \<Rightarrow> \<exists>v. ps = [Var v] \<and> vtype v = ''boolean''
         | ComparisonTerm n cmp ps \<Rightarrow>
             \<forall>v. Var v \<in> set ps \<longrightarrow>
               vtype v = (if cmp = Text ''=='' \<or> cmp = Text ''!='' then ''TEXT'' else ''NUMBER'')"
  using message_content_cases [OF assms]
proof (elim disjE conjE exE)
  fix v assume "vtype v = ''boolean''"
    and "s' = s\<lparr>vars := assign (camel (name v)) v (vars s),
                  terms := terms s @ [MessageContentTerm (term_name cn ''messageContent'' (termIndex s)) [Var v]],
                  termIndex := termIndex s + 1\<rparr>"
  then show ?thesis by simp
next
  fix cmp
  let ?o1 = "operand (index_opt (children opn) 2) (termIndex s) ''1'' (inferred_type cmp)"
  let ?o2 = "operand (index_opt (children opn) 4) (termIndex s) ''2'' (inferred_type cmp)"
  let ?c = "case cmp of None \<Rightarrow> Undefined | Some c \<Rightarrow> Text c"
  assume "s' = s\<lparr>vars := merge_parameter ?o2 (merge_parameter ?o1 (vars s)),
                terms := terms s @
                  [ComparisonTerm (term_name cn ''messageContent'' (termIndex s)) ?c [?o1, ?o2]],
                termIndex := termIndex s + 1\<rparr>"
  then have l: "last (terms s') = ComparisonTerm (term_name cn ''messageContent'' (termIndex s)) ?c [?o1, ?o2]"
    by simp
  have t: "\<And>v. Var v \<in> set [?o1, ?o2] \<Longrightarrow> vtype v = inferred_type cmp"
    using operand_cases [of "index_opt (children opn) 2" "termIndex s" "''1''" "inferred_type cmp"]
      operand_cases [of "index_opt (children opn) 4" "termIndex s" "''2''" "inferred_type cmp"]
    by auto
  show ?thesis
    unfolding l using t inferred_type_comparator [of cmp] by simp
qed

text \<open>
  C1. In every clause of the result: a message-content term that carries a comparator has
  only Variables of type \<open>TEXT\<close> when the comparator is \<open>==\<close> or \<open>!=\<close>, and only Variables
  of type \<open>NUMBER\<close> for any other comparator; a presence-check term (no comparator) has
  exactly one Variable, of type \<open>boolean\<close>. A node is a presence check when it has the
  fixed child count 4, and then the analyzer returns that single Variable.
\<close>

theorem comparator_driven_types:
  assumes "parse listener tree = Inr c" and "cl \<in> set (clauses c)"
  shows "(\<forall>n cmp ps v. ComparisonTerm n cmp ps \<in> set (clause_terms cl) \<and> Var v \<in> set ps \<longrightarrow>
            vtype v = (if cmp = Text ''=='' \<or> cmp = Text ''!='' then ''TEXT'' else ''NUMBER''))
       \<and> (\<forall>n ps. MessageContentTerm n ps \<in> set (clause_terms cl) \<longrightarrow>
            (\<exists>v. ps = [Var v] \<and> vtype v = ''boolean''))
       \<and> (\<forall>node i. childCount node = 4 \<longrightarrow>
            (\<exists>v. parseMessageContent node i = Inr [Var v] \<and> vtype v = ''boolean''))"
proof -
  let ?Q = "\<lambda>tm. case tm of
           TimeoutTerm n v \<Rightarrow> True
         | MessageContentTerm n ps \<Rightarrow> \<exists>v. ps = [Var v] \<and> vtype v = ''boolean''
         | ComparisonTerm n cmp ps \<Rightarrow>
             \<forall>v. Var v \<in> set ps \<longrightarrow>
               vtype v = (if cmp = Text ''=='' \<or> cmp = Text ''!='' then ''TEXT'' else ''NUMBER'')"
  have q: "?Q tm" if "tm \<in> set (clause_terms cl)" for tm
  proof (rule parse_terms_invariant [OF assms that, where Q = ?Q])
    fix n v show "?Q (TimeoutTerm n v)" by simp
  next
    fix cn s opn s' assume "message_content cn s opn = Inr s'"
    then show "?Q (last (terms s'))" by (rule message_content_typed)
  qed
  have a: "\<forall>n cmp ps v. ComparisonTerm n cmp ps \<in> set (clause_terms cl) \<and> Var v \<in> set ps \<longrightarrow>
            vtype v = (if cmp = Text ''=='' \<or> cmp = Text ''!='' then ''TEXT'' else ''NUMBER'')"
  proof (intro allI impI)
    fix n cmp ps v
    assume h: "ComparisonTerm n cmp ps \<in> set (clause_terms cl) \<and> Var v \<in> set ps"
    then have "?Q (ComparisonTerm n cmp ps)" using q by blast
    then show "vtype v = (if cmp = Text ''=='' \<or> cmp = Text ''!='' then ''TEXT'' else ''NUMBER'')"
      using h by simp
  qed
  have b: "\<forall>n ps. MessageContentTerm n ps \<in> set (clause_terms cl) \<longrightarrow>
            (\<exists>v. ps = [Var v] \<and> vtype v = ''boolean'')"
  proof (intro allI impI)
    fix n ps
    assume "MessageContentTerm n ps \<in> set (clause_terms cl)"
    then have "?Q (MessageContentTerm n ps)" using q by blast
    then show "\<exists>v. ps = [Var v] \<and> vtype v = ''boolean''" by simp
  qed
  have c: "\<forall>node i. childCount node = 4 \<longrightarrow>
            (\<exists>v. parseMessageContent node i = Inr [Var v] \<and> vtype v = ''boolean'')"
    by (simp add: parseMessageContent_def)
  show ?thesis using a b c by blast
qed

theorem comparator_driven_types_witness:
  "parse silent example_tree = Inr example_contract
   \<and> example_clause \<in> set (clauses example_contract)
   \<and> ComparisonTerm (example_name ''messageContent'' ''2'') (Text ''=='')
        [Var example_status, Var example_quoted] \<in> set (clause_terms example_clause)
   \<and> vtype example_status = ''TEXT'' \<and> vtype example_quoted = ''TEXT''
   \<and> ComparisonTerm (example_name ''messageContent'' ''1'') (Text ''>'')
        [Var example_amount, Text ''100''] \<in> set (clause_terms example_clause)
   \<and> vtype example_amount = ''NUMBER''
   \<and> MessageContentTerm (example_name ''messageContent'' ''3'') [Var example_presence]
        \<in> set (clause_terms example_clause)
   \<and> vtype example_presence = ''boolean''
   \<and> childCount (presence_node ''x'') = 4"
proof -
  have cl: "example_clause \<in> set (clauses example_contract)"
    by (simp add: clauses_example)
  have ts: "clause_terms example_clause = example_terms"
    by (simp add: example_clause_def)
  have m2: "ComparisonTerm (example_name ''messageContent'' ''2'') (Text ''=='')
        [Var example_status, Var example_quoted] \<in> set (clause_terms example_clause)"
    and m1: "ComparisonTerm (example_name ''messageContent'' ''1'') (Text ''>'')
        [Var example_amount, Text ''100''] \<in> set (clause_terms example_clause)"
    and m3: "MessageContentTerm (example_name ''messageContent'' ''3'') [Var example_presence]
        \<in> set (clause_terms example_clause)"
    by (simp_all add: ts example_terms_def)
  note th = comparator_driven_types [OF parse_example cl]
  have t1: "\<And>n cmp ps v. ComparisonTerm n cmp ps \<in> set (clause_terms example_clause) \<Longrightarrow>
      Var v \<in> set ps \<Longrightarrow>
      vtype v = (if cmp = Text ''=='' \<or> cmp = Text ''!='' then ''TEXT'' else ''NUMBER'')"
    using th by blast
  have t2: "\<And>n ps. MessageContentTerm n ps \<in> set (clause_terms example_clause) \<Longrightarrow>
      \<exists>v. ps = [Var v] \<and> vtype v = ''boolean''"
    using th by blast
  have "vtype example_status = ''TEXT''"
    using t1 [OF m2, of example_status] by simp
  moreover have "vtype example_quoted = ''TEXT''"
    using t1 [OF m2, of example_quoted] by simp
  moreover have "vtype example_amount = ''NUMBER''"
    using t1 [OF m1, of example_amount] by simp
  moreover have "vtype example_presence = ''boolean''"
    using t2 [OF m3] by simp
  moreover have "childCount (presence_node ''x'') = 4"
    by (simp add: presence_node_def childCount_def)
  ultimately show ?thesis using parse_example cl m1 m2 m3 by simp
qed

section \<open>C2: the term index\<close>

lemma forEach_additive:
  assumes "forEach f xs s = Inr s'" and "I (k :: nat) s"
    and step: "\<And>k s x s'. I k s \<Longrightarrow> f s x = Inr s' \<Longrightarrow> I (k + m [x]) s'"
    and add: "\<And>a b. m (a @ b) = m a + m b" and nil: "m [] = 0"
  shows "I (k + m xs) s'"
  using assms(1,2)
proof (induction xs arbitrary: s k)
  case Nil
  then show ?case by (simp add: nil)
next
  case (Cons x xs)
  from Cons.prems(1) obtain s1 where s1: "f s x = Inr s1" and rest: "forEach f xs s1 = Inr s'"
    by (cases "f s x") simp_all
  have "I (k + m [x]) s1" by (rule step [OF Cons.prems(2) s1])
  from Cons.IH [OF rest this] have "I (k + m [x] + m xs) s'" .
  moreover have "m (x # xs) = m [x] + m xs" using add [of "[x]" xs] by simp
  ultimately show ?case by (simp add: add.assoc)
qed

lemma sub_nodes_append: "sub_nodes k (a @ b) = sub_nodes k a @ sub_nodes k b"
  by (simp add: sub_nodes_def)

lemma sub_nodes_Nil: "sub_nodes k [] = []"
  by (simp add: sub_nodes_def)

lemma sub_nodes_single: "sub_nodes k [n] = (if instanceof n k then children n else [])"
  by (simp add: sub_nodes_def)

lemma message_content_nodes_append:
  "message_content_nodes (a @ b) = message_content_nodes a @ message_content_nodes b"
  by (simp add: message_content_nodes_def)

lemma timeout_child_counts: "index_counts k s \<Longrightarrow> index_counts k (timeout_child cn s t)"
  by (simp add: index_counts_def timeout_child_def)

lemma timeout_children_counts:
  "index_counts k s \<Longrightarrow> index_counts k (fold (\<lambda>t s. timeout_child cn s t) ts s)"
  by (induction ts arbitrary: s) (simp_all add: timeout_child_counts)

lemma message_content_advances:
  assumes "message_content cn s opn = Inr s'"
  shows "termIndex s' = termIndex s + 1
         \<and> filter is_TimeoutTerm (terms s') = filter is_TimeoutTerm (terms s)"
  using message_content_cases [OF assms] by auto

lemma message_content_counts:
  assumes "message_content cn s opn = Inr s'" and "index_counts k s"
  shows "index_counts (k + 1) s'"
  using message_content_advances [OF assms(1)] assms(2) by (simp add: index_counts_def)

lemma operation_child_counts:
  assumes run: "operation_child cn s opn = Inr s'" and k: "index_counts k s"
  shows "index_counts (k + length (message_content_nodes [opn])) s'"
proof -
  let ?s1 = "if instanceof opn TimeoutContext
             then fold (\<lambda>t s. timeout_child cn s t) (children opn) s else s"
  have k1: "index_counts k ?s1" using k by (simp add: timeout_children_counts)
  from run have r: "(if instanceof opn MessageContentContext then message_content cn ?s1 opn
         else Inr ?s1) = Inr s'"
    by (simp add: operation_child_def Let_def)
  show ?thesis
  proof (cases "instanceof opn MessageContentContext")
    case True
    with r have "message_content cn ?s1 opn = Inr s'" by simp
    from message_content_counts [OF this k1] True show ?thesis
      by (simp add: message_content_nodes_def)
  next
    case False
    with r have "s' = ?s1" by simp
    then show ?thesis using k1 False by (simp add: message_content_nodes_def)
  qed
qed

lemma operations_count:
  assumes "forEach (operation_child cn) ops s = Inr s'" and "index_counts k s"
  shows "index_counts (k + length (message_content_nodes ops)) s'"
proof (rule forEach_additive [where I = index_counts and f = "operation_child cn"
      and m = "\<lambda>ns. length (message_content_nodes ns)", OF assms])
  fix k s x s' assume "index_counts k s" "operation_child cn s x = Inr s'"
  then show "index_counts (k + length (message_content_nodes [x])) s'"
    using operation_child_counts by blast
qed (simp_all add: message_content_nodes_def)

lemma term_child_counts:
  assumes run: "term_child cn s tm = Inr s'" and k: "index_counts k s"
  shows "index_counts (k + length (message_content_nodes (sub_nodes TermContext [tm]))) s'"
proof (cases "instanceof tm TermContext")
  case True
  with run have "forEach (operation_child cn) (children tm) s = Inr s'"
    by (simp add: term_child_def)
  from operations_count [OF this k] True show ?thesis by (simp add: sub_nodes_single)
next
  case False
  with run k show ?thesis by (simp add: term_child_def sub_nodes_single message_content_nodes_def)
qed

lemma term_children_count:
  assumes "forEach (term_child cn) tms s = Inr s'" and "index_counts k s"
  shows "index_counts (k + length (message_content_nodes (sub_nodes TermContext tms))) s'"
proof (rule forEach_additive [where I = index_counts and f = "term_child cn"
      and m = "\<lambda>ns. length (message_content_nodes (sub_nodes TermContext ns))", OF assms])
  fix k s x s' assume "index_counts k s" "term_child cn s x = Inr s'"
  then show "index_counts (k + length (message_content_nodes (sub_nodes TermContext [x]))) s'"
    using term_child_counts by blast
qed (simp_all add: message_content_nodes_def sub_nodes_def)

lemma terms_child_counts:
  assumes run: "terms_child cn s ts = Inr s'" and k: "index_counts k s"
  shows "index_counts (k + length (message_content_nodes
            (sub_nodes TermContext (sub_nodes TermOrWhenContext [ts])))) s'"
proof (cases "instanceof ts TermOrWhenContext")
  case True
  with run have "forEach (term_child cn) (children ts) s = Inr s'"
    by (simp add: terms_child_def)
  from term_children_count [OF this k] True show ?thesis by (simp add: sub_nodes_single)
next
  case False
  with run k show ?thesis
    by (simp add: terms_child_def sub_nodes_single sub_nodes_Nil message_content_nodes_def)
qed

lemma terms_children_count:
  assumes "forEach (terms_child cn) tss s = Inr s'" and "index_counts k s"
  shows "index_counts (k + length (message_content_nodes
            (sub_nodes TermContext (sub_nodes TermOrWhenContext tss)))) s'"
proof (rule forEach_additive [where I = index_counts and f = "terms_child cn"
      and m = "\<lambda>ns. length (message_content_nodes
            (sub_nodes TermContext (sub_nodes TermOrWhenContext ns)))", OF assms])
  fix k s x s' assume "index_counts k s" "terms_child cn s x = Inr s'"
  then show "index_counts (k + length (message_content_nodes
            (sub_nodes TermContext (sub_nodes TermOrWhenContext [x])))) s'"
    using terms_child_counts by blast
qed (simp_all add: message_content_nodes_def sub_nodes_def)

lemma clause_child_counts:
  assumes run: "clause_child cn s c = Inr s'" and k: "index_counts k s"
  shows "index_counts (k + length (message_content_nodes
            (sub_nodes TermContext (sub_nodes TermOrWhenContext (sub_nodes TermsContext [c]))))) s'"
proof (cases "instanceof c OnBreachContext")
  case True
  then have nt: "\<not> instanceof c TermsContext" by (cases c) auto
  from run True obtain m where "s' = s\<lparr>messages_error := m\<rparr>"
    by (auto simp: clause_child_def split: sum.splits)
  then show ?thesis using k nt
    by (simp add: index_counts_def sub_nodes_single sub_nodes_Nil message_content_nodes_def)
next
  case nb: False
  show ?thesis
  proof (cases "instanceof c TermsContext")
    case True
    with run nb have "forEach (terms_child cn) (children c) s = Inr s'"
      by (simp add: clause_child_def)
    from terms_children_count [OF this k] True show ?thesis by (simp add: sub_nodes_single)
  next
    case False
    with run nb k show ?thesis
      by (simp add: clause_child_def sub_nodes_single sub_nodes_Nil message_content_nodes_def)
  qed
qed

lemma lower_terms_counts:
  assumes "lower_terms cn c = Inr st"
  shows "index_counts (length (message_content_nodes (operation_nodes c))) st"
proof -
  from assms have fe: "forEach (clause_child cn) (children c) initial_state = Inr st"
    by (simp add: lower_terms_def)
  have i: "index_counts 0 initial_state" by (simp add: index_counts_def initial_state_def)
  have "index_counts (0 + length (message_content_nodes
            (sub_nodes TermContext (sub_nodes TermOrWhenContext (sub_nodes TermsContext (children c)))))) st"
  proof (rule forEach_additive [where I = index_counts and f = "clause_child cn"
      and m = "\<lambda>ns. length (message_content_nodes
            (sub_nodes TermContext (sub_nodes TermOrWhenContext (sub_nodes TermsContext ns))))", OF fe i])
    fix k s x s' assume "index_counts k s" "clause_child cn s x = Inr s'"
    then show "index_counts (k + length (message_content_nodes
            (sub_nodes TermContext (sub_nodes TermOrWhenContext (sub_nodes TermsContext [x]))))) s'"
      using clause_child_counts by blast
  qed (simp_all add: message_content_nodes_def sub_nodes_def)
  then show ?thesis by (simp add: operation_nodes_def)
qed

text \<open>
  C2. When the lowering of a clause completes, the term index equals the number of Timeout
  terms emitted plus the number of message-content nodes met where an operation stands. A
  child of a timeout node whose text does not parse as a number emits no term and leaves the
  index alone; a message-content node advances the index by exactly one whatever the analyzer
  returns for it (two numeric literals included), and pushes no Timeout term.
\<close>

theorem term_index_counts:
  "(\<forall>st. lower_terms cn c = Inr st \<longrightarrow>
      termIndex st = length (filter is_TimeoutTerm (terms st))
                     + length (message_content_nodes (operation_nodes c)))
   \<and> (\<forall>s t. \<not> isNumber (node_text t) \<longrightarrow> timeout_child cn s t = s)
   \<and> (\<forall>s opn s'. message_content cn s opn = Inr s' \<longrightarrow>
        termIndex s' = termIndex s + 1
        \<and> filter is_TimeoutTerm (terms s') = filter is_TimeoutTerm (terms s))"
proof (intro conjI allI impI)
  fix st assume "lower_terms cn c = Inr st"
  from lower_terms_counts [OF this]
  show "termIndex st = length (filter is_TimeoutTerm (terms st))
                     + length (message_content_nodes (operation_nodes c))"
    by (simp add: index_counts_def)
next
  fix s t assume "\<not> isNumber (node_text t)"
  then show "timeout_child cn s t = s" by (simp add: timeout_child_def)
next
  fix s opn s' assume a: "message_content cn s opn = Inr s'"
  from message_content_advances [OF a] show "termIndex s' = termIndex s + 1" by simp
  from message_content_advances [OF a]
  show "filter is_TimeoutTerm (terms s') = filter is_TimeoutTerm (terms s)" by simp
qed

lemma lower_terms_example:
  "lower_terms (clauseName_of ''right'' ''requestDelivery'') example_clause_node = Inr example_state"
  by code_simp

lemma example_nodes_count: "length (message_content_nodes (operation_nodes example_clause_node)) = 4"
  by code_simp

theorem term_index_counts_witness:
  "lower_terms (clauseName_of ''right'' ''requestDelivery'') example_clause_node = Inr example_state
   \<and> termIndex example_state = 1 + 4
   \<and> length (filter is_TimeoutTerm (terms example_state)) = 1
   \<and> length (message_content_nodes (operation_nodes example_clause_node)) = 4
   \<and> \<not> isNumber (node_text (tok ''Timeout''))
   \<and> timeout_child (clauseName_of ''right'' ''requestDelivery'') initial_state (tok ''Timeout'')
       = initial_state
   \<and> message_content (clauseName_of ''right'' ''requestDelivery'') initial_state
        (comparison_node ''1'' ''<'' ''2'')
       = Inr (initial_state\<lparr>terms := [ComparisonTerm (example_name ''messageContent'' ''0'')
                                          (Text ''<'') [Text ''1'', Text ''2'']],
                             termIndex := 1\<rparr>)"
proof -
  note th = term_index_counts [of "clauseName_of ''right'' ''requestDelivery''" example_clause_node]
  have "termIndex example_state = length (filter is_TimeoutTerm (terms example_state))
                     + length (message_content_nodes (operation_nodes example_clause_node))"
    using th lower_terms_example by blast
  moreover have t: "length (filter is_TimeoutTerm (terms example_state)) = 1"
    by (simp add: example_state_def example_terms_def)
  ultimately have i: "termIndex example_state = 1 + 4"
    using example_nodes_count by simp
  have n: "\<not> isNumber (node_text (tok ''Timeout''))" by code_simp
  have "timeout_child (clauseName_of ''right'' ''requestDelivery'') initial_state (tok ''Timeout'')
       = initial_state"
    using th n by blast
  moreover have "message_content (clauseName_of ''right'' ''requestDelivery'') initial_state
        (comparison_node ''1'' ''<'' ''2'')
       = Inr (initial_state\<lparr>terms := [ComparisonTerm (example_name ''messageContent'' ''0'')
                                          (Text ''<'') [Text ''1'', Text ''2'']],
                             termIndex := 1\<rparr>)"
    by code_simp
  ultimately show ?thesis using lower_terms_example i t example_nodes_count n by simp
qed

section \<open>C3: the operands of a comparison\<close>

lemma parseMessageContent_comparison:
  assumes "4 < childCount term"
  shows "parseMessageContent term index =
     Inr [operand (Some (children term ! 2)) index ''1'' (inferred_type (Some (node_text (children term ! 3)))),
          Text (node_text (children term ! 3)),
          operand (Some (children term ! 4)) index ''2'' (inferred_type (Some (node_text (children term ! 3))))]"
proof -
  from assms have n: "children term \<noteq> []" "childCount term \<noteq> 4" "2 < length (children term)"
    "3 < length (children term)" "4 < length (children term)"
    by (auto simp: childCount_def)
  show ?thesis
    using n by (simp add: parseMessageContent_def index_opt_def child_text_def Let_def)
qed

text \<open>
  C3. In a binary comparison (a message-content node that holds both operand positions),
  each operand is analysed on its own. An operand whose raw text parses as a number is
  carried through as that raw text, and no Variable is made for it. Otherwise, when the raw
  text does not begin with a double quote, a Variable named by the raw text is made (pascal:
  the raw text with the first character upper-cased; camel and snake: the raw text).
  Otherwise a Variable named from the term index and the position (1 left, 2 right) is made.
  Every Variable takes the type inferred from the comparator.
\<close>

theorem operand_analysis:
  assumes "4 < childCount term"
  shows "\<exists>p1 p2.
     parseMessageContent term index = Inr [p1, Text (node_text (children term ! 3)), p2] \<and>
     (\<forall>(v, p, pos) \<in> {(children term ! 2, p1, ''1''), (children term ! 4, p2, ''2'')}.
        let raw = node_text v;
            ty = (if node_text (children term ! 3) = ''=='' \<or> node_text (children term ! 3) = ''!=''
                  then ''TEXT'' else ''NUMBER'')
        in (isNumber raw \<longrightarrow> p = Text raw) \<and>
           (\<not> isNumber raw \<and> \<not> startsWithQuote raw \<longrightarrow>
              p = Var \<lparr>name = \<lparr>pascal = capitalizeFirst raw, camel = raw, snake = raw\<rparr>, vtype = ty\<rparr>) \<and>
           (\<not> isNumber raw \<and> startsWithQuote raw \<longrightarrow>
              p = Var \<lparr>name = \<lparr>pascal = ''MessageContent'' @ toString index @ pos,
                                camel = ''messageContent'' @ toString index @ pos,
                                snake = ''messageContent_'' @ toString index @ ''_'' @ pos\<rparr>,
                        vtype = ty\<rparr>))"
  unfolding parseMessageContent_comparison [OF assms]
  by (simp add: operand_def anonymous_def inferred_type_def Let_def)

theorem operand_analysis_witness:
  "4 < childCount (comparison_node ''status'' ''=='' [CHR 0x22, CHR ''D'', CHR 0x22])
   \<and> parseMessageContent (comparison_node ''status'' ''=='' [CHR 0x22, CHR ''D'', CHR 0x22]) 2 =
       Inr [Var example_status, Text ''=='', Var example_quoted]
   \<and> 4 < childCount (comparison_node ''amount'' ''>'' ''100'')
   \<and> parseMessageContent (comparison_node ''amount'' ''>'' ''100'') 1 =
       Inr [Var example_amount, Text ''>'', Text ''100'']"
proof -
  have h1: "4 < childCount (comparison_node ''status'' ''=='' [CHR 0x22, CHR ''D'', CHR 0x22])"
    and h2: "4 < childCount (comparison_node ''amount'' ''>'' ''100'')"
    by (simp_all add: comparison_node_def childCount_def)
  have n: "\<not> isNumber ''status''" "\<not> isNumber [CHR 0x22, CHR ''D'', CHR 0x22]"
    "\<not> isNumber ''amount''" "isNumber ''100''"
    by code_simp+
  have t: "toString 2 = ''2''" by code_simp
  have u: "toUpperCase_char CHR ''s'' = CHR ''S''" "toUpperCase_char CHR ''a'' = CHR ''A''"
    by code_simp+
  have r1: "parseMessageContent (comparison_node ''status'' ''=='' [CHR 0x22, CHR ''D'', CHR 0x22]) 2 =
       Inr [Var example_status, Text ''=='', Var example_quoted]"
    using operand_analysis [OF h1, of 2]
    by (auto simp: comparison_node_def tok_def n t u example_status_def example_quoted_def Let_def)
  have r2: "parseMessageContent (comparison_node ''amount'' ''>'' ''100'') 1 =
       Inr [Var example_amount, Text ''>'', Text ''100'']"
    using operand_analysis [OF h2, of 1]
    by (auto simp: comparison_node_def tok_def n u example_amount_def Let_def)
  show ?thesis using h1 h2 r1 r2 by simp
qed

section \<open>C4: how many Variables a message-content term holds\<close>





section \<open>C5: the variables of a clause\<close>

lemma assign_keyed:
  assumes "distinct ks"
  shows "assign k v (map (\<lambda>x. (x, g x)) ks) =
     (if k \<in> set ks then map (\<lambda>x. (x, if x = k then v else g x)) ks
      else map (\<lambda>x. (x, g x)) ks @ [(k, v)])"
  using assms
proof (induction ks)
  case Nil
  show ?case by simp
next
  case (Cons a ks)
  then have d: "distinct ks" and a: "a \<notin> set ks" by simp_all
  show ?case
  proof (cases "a = k")
    case True
    then have "k \<notin> set ks" using a by simp
    then have "map (\<lambda>x. (x, if x = k then v else g x)) ks = map (\<lambda>x. (x, g x)) ks"
      by (intro map_cong) auto
    then show ?thesis using True by simp
  next
    case False
    then show ?thesis using Cons.IH [OF d] by simp
  qed
qed

lemma first_occurrences_snoc:
  "first_occurrences (ks @ [k]) =
     (if k \<in> set ks then first_occurrences ks else first_occurrences ks @ [k])"
  by (simp add: first_occurrences_def)

lemma first_occurrences_distinct: "distinct (first_occurrences ks)"
  by (simp add: first_occurrences_def)

lemma first_occurrences_set: "set (first_occurrences ks) = set ks"
  by (simp add: first_occurrences_def)

lemma merge_all_keyed:
  "fold (\<lambda>v. assign (camel_of v) v) vs [] =
     map (\<lambda>k. (k, last (filter (\<lambda>v. camel_of v = k) vs))) (first_occurrences (map camel_of vs))"
proof (induction vs rule: rev_induct)
  case Nil
  show ?case by (simp add: first_occurrences_def)
next
  case (snoc v vs)
  let ?ks = "first_occurrences (map camel_of vs)"
  let ?g = "\<lambda>k. last (filter (\<lambda>v. camel_of v = k) vs)"
  have l: "\<And>k. last (filter (\<lambda>w. camel_of w = k) (vs @ [v])) = (if k = camel_of v then v else ?g k)"
    by auto
  have "fold (\<lambda>v. assign (camel_of v) v) (vs @ [v]) [] = assign (camel_of v) v (map (\<lambda>k. (k, ?g k)) ?ks)"
    using snoc.IH by simp
  also have "\<dots> = (if camel_of v \<in> set ?ks
        then map (\<lambda>x. (x, if x = camel_of v then v else ?g x)) ?ks
        else map (\<lambda>x. (x, ?g x)) ?ks @ [(camel_of v, v)])"
    by (rule assign_keyed [OF first_occurrences_distinct])
  also have "\<dots> = map (\<lambda>k. (k, last (filter (\<lambda>w. camel_of w = k) (vs @ [v]))))
        (first_occurrences (map camel_of (vs @ [v])))"
  proof (cases "camel_of v \<in> set ?ks")
    case True
    then have "first_occurrences (map camel_of (vs @ [v])) = ?ks"
      by (simp add: first_occurrences_snoc first_occurrences_set)
    then show ?thesis using True by (simp add: l)
  next
    case False
    then have f: "first_occurrences (map camel_of (vs @ [v])) = ?ks @ [camel_of v]"
      by (simp add: first_occurrences_snoc first_occurrences_set)
    have "map (\<lambda>x. (x, ?g x)) ?ks = map (\<lambda>x. (x, if x = camel_of v then v else ?g x)) ?ks"
      using False by (intro map_cong) auto
    then show ?thesis using False unfolding f by (simp add: l)
  qed
  finally show ?case .
qed

lemma merge_all_dedup:
  "map snd (fold (\<lambda>v. assign (camel_of v) v) vs []) = dedup_by_camel vs"
  by (simp add: merge_all_keyed dedup_by_camel_def comp_def)

lemma dedup_by_camel_names:
  "map camel_of (dedup_by_camel vs) = first_occurrences (map camel_of vs)"
proof -
  have "\<And>k. k \<in> set (first_occurrences (map camel_of vs)) \<Longrightarrow>
      camel_of (last (filter (\<lambda>v. camel_of v = k) vs)) = k"
  proof -
    fix k assume "k \<in> set (first_occurrences (map camel_of vs))"
    then have "filter (\<lambda>v. camel_of v = k) vs \<noteq> []"
      by (auto simp: first_occurrences_set filter_empty_conv)
    then have "last (filter (\<lambda>v. camel_of v = k) vs) \<in> set (filter (\<lambda>v. camel_of v = k) vs)"
      by (rule last_in_set)
    then show "camel_of (last (filter (\<lambda>v. camel_of v = k) vs)) = k" by simp
  qed
  then show ?thesis
    by (simp add: dedup_by_camel_def comp_def map_idI)
qed

lemma merge_parameters:
  "fold (\<lambda>v. assign (camel_of v) v) (parameter_variables [p1, p2]) kvs =
     merge_parameter p2 (merge_parameter p1 kvs)"
  by (cases p1; cases p2) (simp_all add: camel_of_def)

lemma discovered_snoc: "discovered (ts @ [t]) = discovered ts @ term_variables t"
  by (simp add: discovered_def)

lemma lower_terms_merged:
  assumes "lower_terms cn c = Inr st"
  shows "vars st = fold (\<lambda>v. assign (camel_of v) v) (discovered (terms st)) []"
proof (rule lower_terms_invariant [OF assms,
      where P = "\<lambda>s. vars s = fold (\<lambda>v. assign (camel_of v) v) (discovered (terms s)) []"])
  show "vars initial_state = fold (\<lambda>v. assign (camel_of v) v) (discovered (terms initial_state)) []"
    by (simp add: initial_state_def discovered_def)
next
  fix s :: clause_state and t
  assume "vars s = fold (\<lambda>v. assign (camel_of v) v) (discovered (terms s)) []"
  then show "vars (timeout_child cn s t) =
      fold (\<lambda>v. assign (camel_of v) v) (discovered (terms (timeout_child cn s t))) []"
    by (simp add: timeout_child_def discovered_snoc)
next
  fix s :: clause_state and opn s'
  assume a: "vars s = fold (\<lambda>v. assign (camel_of v) v) (discovered (terms s)) []"
    and r: "message_content cn s opn = Inr s'"
  from message_content_cases [OF r]
  show "vars s' = fold (\<lambda>v. assign (camel_of v) v) (discovered (terms s')) []"
  proof (elim disjE conjE exE)
    fix v assume "s' = s\<lparr>vars := assign (camel (name v)) v (vars s),
                  terms := terms s @ [MessageContentTerm (term_name cn ''messageContent'' (termIndex s)) [Var v]],
                  termIndex := termIndex s + 1\<rparr>"
    then show ?thesis using a by (simp add: discovered_snoc camel_of_def)
  next
    fix cmp
    let ?o1 = "operand (index_opt (children opn) 2) (termIndex s) ''1'' (inferred_type cmp)"
    let ?o2 = "operand (index_opt (children opn) 4) (termIndex s) ''2'' (inferred_type cmp)"
    let ?c = "case cmp of None \<Rightarrow> Undefined | Some c \<Rightarrow> Text c"
    assume "s' = s\<lparr>vars := merge_parameter ?o2 (merge_parameter ?o1 (vars s)),
                terms := terms s @
                  [ComparisonTerm (term_name cn ''messageContent'' (termIndex s)) ?c [?o1, ?o2]],
                termIndex := termIndex s + 1\<rparr>"
    then have v: "vars s' = merge_parameter ?o2 (merge_parameter ?o1 (vars s))"
      and t: "discovered (terms s') = discovered (terms s) @ parameter_variables [?o1, ?o2]"
      by (simp_all add: discovered_snoc)
    show ?thesis unfolding v t using a by (simp add: merge_parameters del: parameter_variables.simps)
  qed
next
  fix s :: clause_state and m
  assume "vars s = fold (\<lambda>v. assign (camel_of v) v) (discovered (terms s)) []"
  then show "vars (s\<lparr>messages_error := m\<rparr>) =
      fold (\<lambda>v. assign (camel_of v) v) (discovered (terms (s\<lparr>messages_error := m\<rparr>))) []"
    by simp
qed

text \<open>
  C5. In every clause of the result, no two entries of the clause's variables have the
  same camel-case name, and the variables are the Variables discovered across the clause's
  terms, deduplicated by camel name: one entry per camel name, in the order in which the
  names were first discovered, each entry the latest Variable discovered under its name.
\<close>

theorem clause_variables_dedup:
  assumes "parse listener tree = Inr c" and "cl \<in> set (clauses c)"
  shows "distinct (map camel_of (clause_variables cl))
       \<and> clause_variables cl = dedup_by_camel (discovered (clause_terms cl))
       \<and> map camel_of (clause_variables cl) = first_occurrences (map camel_of (discovered (clause_terms cl)))
       \<and> set (clause_variables cl) \<subseteq> set (discovered (clause_terms cl))"
proof -
  from parse_clause_lowered [OF assms] obtain n where n: "lower_clause n = Inr cl" ..
  from n obtain cn st where st: "lower_terms cn n = Inr st"
    and t: "clause_terms cl = terms st" and v: "clause_variables cl = map snd (vars st)"
    by (rule lower_clause_Inr) simp
  have d: "clause_variables cl = dedup_by_camel (discovered (clause_terms cl))"
    unfolding v t lower_terms_merged [OF st] by (rule merge_all_dedup)
  have k: "map camel_of (clause_variables cl) = first_occurrences (map camel_of (discovered (clause_terms cl)))"
    unfolding d by (rule dedup_by_camel_names)
  have s: "set (clause_variables cl) \<subseteq> set (discovered (clause_terms cl))"
  proof
    fix x assume "x \<in> set (clause_variables cl)"
    then obtain k where k: "k \<in> set (map camel_of (discovered (clause_terms cl)))"
      and x: "x = last (filter (\<lambda>v. camel_of v = k) (discovered (clause_terms cl)))"
      unfolding d dedup_by_camel_def by (auto simp: first_occurrences_set)
    from k have "filter (\<lambda>v. camel_of v = k) (discovered (clause_terms cl)) \<noteq> []"
      by (auto simp: filter_empty_conv)
    then have "x \<in> set (filter (\<lambda>v. camel_of v = k) (discovered (clause_terms cl)))"
      unfolding x by (rule last_in_set)
    then show "x \<in> set (discovered (clause_terms cl))" by simp
  qed
  show ?thesis using d k s by (simp add: first_occurrences_distinct)
qed

lemma parse_twice: "parse silent twice_tree = Inr twice_contract"
  by code_simp

theorem clause_variables_dedup_witness:
  "parse silent twice_tree = Inr twice_contract
   \<and> twice_clause \<in> set (clauses twice_contract)
   \<and> discovered (clause_terms twice_clause) = [amount_number, amount_text, quoted_x]
   \<and> clause_variables twice_clause = [amount_text, quoted_x]
   \<and> dedup_by_camel [amount_number, amount_text, quoted_x] = [amount_text, quoted_x]
   \<and> distinct (map camel_of [amount_text, quoted_x])"
proof -
  have cl: "twice_clause \<in> set (clauses twice_contract)"
    by (simp add: twice_contract_def)
  have d: "discovered (clause_terms twice_clause) = [amount_number, amount_text, quoted_x]"
    by (simp add: twice_clause_def discovered_def)
  have v: "clause_variables twice_clause = [amount_text, quoted_x]"
    by (simp add: twice_clause_def)
  note th = clause_variables_dedup [OF parse_twice cl]
  have "distinct (map camel_of [amount_text, quoted_x])
      \<and> [amount_text, quoted_x] = dedup_by_camel [amount_number, amount_text, quoted_x]"
    using th by (simp add: d v)
  then have "dedup_by_camel [amount_number, amount_text, quoted_x] = [amount_text, quoted_x]"
    and "distinct (map camel_of [amount_text, quoted_x])"
    by simp_all
  then show ?thesis using parse_twice cl d v by simp
qed

section \<open>C7: operation and role player\<close>

text \<open>
  C7. In every clause of the returned contract the \<^verbatim>\<open>operation\<close> field equals the
  \<^verbatim>\<open>rolePlayer\<close> field: both are read from the third child of the clause's role-player node.
\<close>

theorem operation_equals_rolePlayer:
  "parse listener tree = Inr c \<Longrightarrow> \<forall>cl \<in> set (clauses c). operation cl = rolePlayer cl"
  using parse_clause_lowered lower_clause_operation by blast

theorem operation_equals_rolePlayer_witness:
  "parse silent example_tree = Inr example_contract
   \<and> clauses example_contract = [example_clause]
   \<and> operation example_clause = rolePlayer example_clause"
  using operation_equals_rolePlayer [OF parse_example] parse_example clauses_example by simp

section \<open>C9: the variables-block\<close>

lemma variables_child_ok: "variables_child v = Inr ()"
  by (simp add: variables_child_def split: option.splits)

lemma variables_block_ok: "forEach (\<lambda>u v. variables_child v) vs () = Inr ()"
  by (induction vs) (simp_all add: variables_child_ok)

lemma contract_child_variables: "contract_child st (RuleNode VariablesContext vs) = Inr st"
  by (simp add: contract_child_def variables_block_ok)

lemma canonicalize_variables: "canonicalize tree = Inr c \<Longrightarrow> variables c = []"
  by (auto simp: canonicalize_def Let_def split: sum.splits)

text \<open>
  C9. A variables-block at the contract level is traversed without raising an error and
  contributes nothing to the output: its traversal always completes, the tree with the
  block gives the very result (error or contract) of the tree without it, and the
  \<^verbatim>\<open>variables\<close> field of a returned contract is the empty sequence.
\<close>

theorem variables_block_ignored:
  "forEach (\<lambda>u v. variables_child v) vs () = Inr ()
   \<and> canonicalize (RuleNode k (xs @ RuleNode VariablesContext vs # ys)) = canonicalize (RuleNode k (xs @ ys))
   \<and> (\<forall>c. parse listener tree = Inr c \<longrightarrow> variables c = [])"
proof (intro conjI allI impI)
  show "forEach (\<lambda>u v. variables_child v) vs () = Inr ()"
    by (rule variables_block_ok)
next
  have ids: "tryGetID (RuleNode k (xs @ RuleNode VariablesContext vs # ys)) = tryGetID (RuleNode k (xs @ ys))"
    by (simp add: tryGetID_def)
  have loop: "forEach contract_child (xs @ RuleNode VariablesContext vs # ys) initial_parse_state
      = forEach contract_child (xs @ ys) initial_parse_state"
    by (simp add: forEach_append contract_child_variables split: sum.splits)
  show "canonicalize (RuleNode k (xs @ RuleNode VariablesContext vs # ys)) = canonicalize (RuleNode k (xs @ ys))"
    unfolding canonicalize_def ids using loop by simp
next
  fix c assume "parse listener tree = Inr c"
  then have "canonicalize tree = Inr c" by (simp add: parse_def split: option.splits)
  then show "variables c = []" by (rule canonicalize_variables)
qed

theorem variables_block_ignored_witness:
  "parse silent example_tree = Inr example_contract \<and> variables example_contract = []"
  using variables_block_ignored [of "[]" OtherContext "[]" "[]" silent example_tree] parse_example
  by blast

section \<open>C10: the timeout branch\<close>

lemma timeout_children_Cons:
  "fold (\<lambda>t s. timeout_child cn s t) (t # ts) st = fold (\<lambda>t s. timeout_child cn s t) ts (timeout_child cn st t)"
  by simp

lemma timeout_children:
  "fold (\<lambda>t s. timeout_child cn s t) cs st =
     st\<lparr>termIndex := termIndex st + length (filter (\<lambda>t. isNumber (node_text t)) cs),
        terms := terms st @
          map (\<lambda>(i, t). TimeoutTerm (term_name cn ''timeout'' i) (node_text t))
            (enumerate (termIndex st) (filter (\<lambda>t. isNumber (node_text t)) cs))\<rparr>"
proof (induction cs arbitrary: st)
  case Nil
  show ?case by simp
next
  case (Cons t ts)
  show ?case
  proof (cases "isNumber (node_text t)")
    case True
    then show ?thesis
      unfolding timeout_children_Cons Cons.IH by (simp add: timeout_child_def)
  next
    case False
    then show ?thesis
      unfolding timeout_children_Cons Cons.IH by (simp add: timeout_child_def)
  qed
qed

text \<open>The callback over the children of a term node, at a timeout node: it runs the timeout
  callback over every child of the node and nothing else.\<close>

lemma operation_child_timeout:
  assumes "instanceof opn TimeoutContext"
  shows "operation_child cn st opn = Inr (fold (\<lambda>t s. timeout_child cn s t) (children opn) st)"
proof -
  from assms have "\<not> instanceof opn MessageContentContext" by (cases opn) auto
  then show ?thesis using assms by (simp add: operation_child_def)
qed

lemma forEach_collect:
  assumes "forEach f xs s = Inr s'" and "I (k :: 'b list) s"
    and step: "\<And>k s x s'. I k s \<Longrightarrow> f s x = Inr s' \<Longrightarrow> I (k @ m [x]) s'"
    and add: "\<And>a b. m (a @ b) = m a @ m b" and nil: "m [] = []"
  shows "I (k @ m xs) s'"
  using assms(1,2)
proof (induction xs arbitrary: s k)
  case Nil
  then show ?case by (simp add: nil)
next
  case (Cons x xs)
  from Cons.prems(1) obtain s1 where s1: "f s x = Inr s1" and rest: "forEach f xs s1 = Inr s'"
    by (cases "f s x") simp_all
  have "I (k @ m [x]) s1" by (rule step [OF Cons.prems(2) s1])
  from Cons.IH [OF rest this] have "I ((k @ m [x]) @ m xs) s'" .
  moreover have "m (x # xs) = m [x] @ m xs" using add [of "[x]" xs] by simp
  ultimately show ?case by simp
qed

subsection \<open>The values of the Timeout terms of a clause\<close>

lemma timeout_values_append: "timeout_values (a @ b) = timeout_values a @ timeout_values b"
  by (induction a rule: timeout_values.induct) simp_all

lemma timeout_child_values:
  "timeout_values (terms (timeout_child cn s t)) =
     timeout_values (terms s) @ map node_text (filter (\<lambda>t. isNumber (node_text t)) [t])"
  by (simp add: timeout_child_def timeout_values_append)

lemma timeout_children_values:
  "timeout_values (terms (fold (\<lambda>t s. timeout_child cn s t) ts s)) =
     timeout_values (terms s) @ map node_text (filter (\<lambda>t. isNumber (node_text t)) ts)"
proof (induction ts arbitrary: s)
  case Nil
  show ?case by simp
next
  case (Cons t ts)
  have "timeout_values (terms (fold (\<lambda>t s. timeout_child cn s t) (t # ts) s)) =
      timeout_values (terms (timeout_child cn s t)) @ map node_text (filter (\<lambda>t. isNumber (node_text t)) ts)"
    unfolding timeout_children_Cons by (rule Cons.IH)
  then show ?case unfolding timeout_child_values by simp
qed

lemma message_content_pushes:
  assumes "message_content cn s opn = Inr s'"
  obtains x where "terms s' = terms s @ [x]" and "termIndex s' = termIndex s + 1"
    and "term_name_of x = term_name cn ''messageContent'' (termIndex s)"
    and "term_type x = ''messageContent''"
  using message_content_cases [OF assms]
proof (elim disjE conjE exE)
  fix v assume e: "s' = s\<lparr>vars := assign (camel (name v)) v (vars s),
                  terms := terms s @ [MessageContentTerm (term_name cn ''messageContent'' (termIndex s)) [Var v]],
                  termIndex := termIndex s + 1\<rparr>"
  show ?thesis
    by (rule that [of "MessageContentTerm (term_name cn ''messageContent'' (termIndex s)) [Var v]"])
       (simp_all add: e)
next
  fix cmp
  let ?o1 = "operand (index_opt (children opn) 2) (termIndex s) ''1'' (inferred_type cmp)"
  let ?o2 = "operand (index_opt (children opn) 4) (termIndex s) ''2'' (inferred_type cmp)"
  let ?c = "case cmp of None \<Rightarrow> Undefined | Some c \<Rightarrow> Text c"
  assume e: "s' = s\<lparr>vars := merge_parameter ?o2 (merge_parameter ?o1 (vars s)),
                terms := terms s @
                  [ComparisonTerm (term_name cn ''messageContent'' (termIndex s)) ?c [?o1, ?o2]],
                termIndex := termIndex s + 1\<rparr>"
  show ?thesis
    by (rule that [of "ComparisonTerm (term_name cn ''messageContent'' (termIndex s)) ?c [?o1, ?o2]"])
       (simp_all add: e)
qed

lemma timeout_values_other:
  "term_type x = ''messageContent'' \<Longrightarrow> timeout_values (ts @ [x]) = timeout_values ts"
  by (cases x) (simp_all add: timeout_values_append)

lemma message_content_values:
  assumes "message_content cn s opn = Inr s'"
  shows "timeout_values (terms s') = timeout_values (terms s)"
proof -
  from assms obtain x where "terms s' = terms s @ [x]" and "term_type x = ''messageContent''"
    by (rule message_content_pushes)
  then show ?thesis by (simp add: timeout_values_other)
qed

lemma numeric_texts_append: "numeric_texts (a @ b) = numeric_texts a @ numeric_texts b"
  by (simp add: numeric_texts_def)

lemma numeric_texts_Nil: "numeric_texts [] = []"
  by (simp add: numeric_texts_def)

lemma operation_child_values:
  assumes run: "operation_child cn s opn = Inr s'" and k: "values_are vs s"
  shows "values_are (vs @ numeric_texts (sub_nodes TimeoutContext [opn])) s'"
proof (cases "instanceof opn TimeoutContext")
  case True
  from run have "s' = fold (\<lambda>t s. timeout_child cn s t) (children opn) s"
    unfolding operation_child_timeout [OF True] by simp
  then show ?thesis using k True
    by (simp add: values_are_def timeout_children_values sub_nodes_single numeric_texts_def)
next
  case False
  from run have r: "(if instanceof opn MessageContentContext then message_content cn s opn
         else Inr s) = Inr s'"
    using False by (simp add: operation_child_def)
  have "timeout_values (terms s') = timeout_values (terms s)"
  proof (cases "instanceof opn MessageContentContext")
    case True
    with r have "message_content cn s opn = Inr s'" by simp
    then show ?thesis by (rule message_content_values)
  next
    case False
    with r show ?thesis by simp
  qed
  then show ?thesis using k False
    by (simp add: values_are_def sub_nodes_single numeric_texts_def)
qed

lemma operations_values:
  assumes "forEach (operation_child cn) ops s = Inr s'" and "values_are vs s"
  shows "values_are (vs @ numeric_texts (sub_nodes TimeoutContext ops)) s'"
proof (rule forEach_collect [where I = values_are and f = "operation_child cn"
      and m = "\<lambda>ns. numeric_texts (sub_nodes TimeoutContext ns)", OF assms])
  fix k s x s' assume "values_are k s" "operation_child cn s x = Inr s'"
  then show "values_are (k @ numeric_texts (sub_nodes TimeoutContext [x])) s'"
    using operation_child_values by blast
qed (simp_all add: numeric_texts_append numeric_texts_Nil sub_nodes_append sub_nodes_Nil)

lemma term_child_values:
  assumes run: "term_child cn s tm = Inr s'" and k: "values_are vs s"
  shows "values_are (vs @ numeric_texts (sub_nodes TimeoutContext (sub_nodes TermContext [tm]))) s'"
proof (cases "instanceof tm TermContext")
  case True
  with run have "forEach (operation_child cn) (children tm) s = Inr s'"
    by (simp add: term_child_def)
  from operations_values [OF this k] True show ?thesis by (simp add: sub_nodes_single)
next
  case False
  with run k show ?thesis
    by (simp add: term_child_def sub_nodes_single sub_nodes_Nil numeric_texts_def)
qed

lemma term_children_values:
  assumes "forEach (term_child cn) tms s = Inr s'" and "values_are vs s"
  shows "values_are (vs @ numeric_texts (sub_nodes TimeoutContext (sub_nodes TermContext tms))) s'"
proof (rule forEach_collect [where I = values_are and f = "term_child cn"
      and m = "\<lambda>ns. numeric_texts (sub_nodes TimeoutContext (sub_nodes TermContext ns))", OF assms])
  fix k s x s' assume "values_are k s" "term_child cn s x = Inr s'"
  then show "values_are (k @ numeric_texts (sub_nodes TimeoutContext (sub_nodes TermContext [x]))) s'"
    using term_child_values by blast
qed (simp_all add: numeric_texts_append numeric_texts_Nil sub_nodes_append sub_nodes_Nil)

lemma terms_child_values:
  assumes run: "terms_child cn s ts = Inr s'" and k: "values_are vs s"
  shows "values_are (vs @ numeric_texts (sub_nodes TimeoutContext
            (sub_nodes TermContext (sub_nodes TermOrWhenContext [ts])))) s'"
proof (cases "instanceof ts TermOrWhenContext")
  case True
  with run have "forEach (term_child cn) (children ts) s = Inr s'"
    by (simp add: terms_child_def)
  from term_children_values [OF this k] True show ?thesis by (simp add: sub_nodes_single)
next
  case False
  with run k show ?thesis
    by (simp add: terms_child_def sub_nodes_single sub_nodes_Nil numeric_texts_def)
qed

lemma terms_children_values:
  assumes "forEach (terms_child cn) tss s = Inr s'" and "values_are vs s"
  shows "values_are (vs @ numeric_texts (sub_nodes TimeoutContext
            (sub_nodes TermContext (sub_nodes TermOrWhenContext tss)))) s'"
proof (rule forEach_collect [where I = values_are and f = "terms_child cn"
      and m = "\<lambda>ns. numeric_texts (sub_nodes TimeoutContext
            (sub_nodes TermContext (sub_nodes TermOrWhenContext ns)))", OF assms])
  fix k s x s' assume "values_are k s" "terms_child cn s x = Inr s'"
  then show "values_are (k @ numeric_texts (sub_nodes TimeoutContext
            (sub_nodes TermContext (sub_nodes TermOrWhenContext [x])))) s'"
    using terms_child_values by blast
qed (simp_all add: numeric_texts_append numeric_texts_Nil sub_nodes_append sub_nodes_Nil)

lemma clause_child_values:
  assumes run: "clause_child cn s c = Inr s'" and k: "values_are vs s"
  shows "values_are (vs @ numeric_texts (sub_nodes TimeoutContext
            (sub_nodes TermContext (sub_nodes TermOrWhenContext (sub_nodes TermsContext [c]))))) s'"
proof (cases "instanceof c OnBreachContext")
  case True
  then have nt: "\<not> instanceof c TermsContext" by (cases c) auto
  from run True obtain m where "s' = s\<lparr>messages_error := m\<rparr>"
    by (auto simp: clause_child_def split: sum.splits)
  then show ?thesis using k nt
    by (simp add: values_are_def sub_nodes_single sub_nodes_Nil numeric_texts_def)
next
  case nb: False
  show ?thesis
  proof (cases "instanceof c TermsContext")
    case True
    with run nb have "forEach (terms_child cn) (children c) s = Inr s'"
      by (simp add: clause_child_def)
    from terms_children_values [OF this k] True show ?thesis by (simp add: sub_nodes_single)
  next
    case False
    with run nb k show ?thesis
      by (simp add: clause_child_def sub_nodes_single sub_nodes_Nil numeric_texts_def)
  qed
qed

lemma lower_terms_values:
  assumes "lower_terms cn c = Inr st"
  shows "timeout_values (terms st) = map node_text (timeout_operands c)"
proof -
  from assms have fe: "forEach (clause_child cn) (children c) initial_state = Inr st"
    by (simp add: lower_terms_def)
  have i: "values_are [] initial_state" by (simp add: values_are_def initial_state_def)
  have "values_are ([] @ numeric_texts (sub_nodes TimeoutContext
            (sub_nodes TermContext (sub_nodes TermOrWhenContext (sub_nodes TermsContext (children c)))))) st"
  proof (rule forEach_collect [where I = values_are and f = "clause_child cn"
      and m = "\<lambda>ns. numeric_texts (sub_nodes TimeoutContext
            (sub_nodes TermContext (sub_nodes TermOrWhenContext (sub_nodes TermsContext ns))))", OF fe i])
    fix k s x s' assume "values_are k s" "clause_child cn s x = Inr s'"
    then show "values_are (k @ numeric_texts (sub_nodes TimeoutContext
            (sub_nodes TermContext (sub_nodes TermOrWhenContext (sub_nodes TermsContext [x]))))) s'"
      using clause_child_values by blast
  qed (simp_all add: numeric_texts_append numeric_texts_Nil sub_nodes_append sub_nodes_Nil)
  then have "timeout_values (terms st) = numeric_texts (sub_nodes TimeoutContext (operation_nodes c))"
    unfolding values_are_def operation_nodes_def by simp
  then show ?thesis
    unfolding numeric_texts_def timeout_operands_def .
qed

subsection \<open>The names of the terms of a clause\<close>

lemma lower_terms_names:
  assumes "lower_terms cn c = Inr st"
  shows "termIndex st = length (terms st) \<and>
         (\<forall>k < length (terms st).
            term_name_of (terms st ! k) = term_name cn (term_type (terms st ! k)) k)"
proof (rule lower_terms_invariant [OF assms,
      where P = "\<lambda>s. termIndex s = length (terms s) \<and>
         (\<forall>k < length (terms s).
            term_name_of (terms s ! k) = term_name cn (term_type (terms s ! k)) k)"])
  show "termIndex initial_state = length (terms initial_state) \<and>
         (\<forall>k < length (terms initial_state).
            term_name_of (terms initial_state ! k) = term_name cn (term_type (terms initial_state ! k)) k)"
    by (simp add: initial_state_def)
next
  fix s :: clause_state and t
  assume a: "termIndex s = length (terms s) \<and>
         (\<forall>k < length (terms s).
            term_name_of (terms s ! k) = term_name cn (term_type (terms s ! k)) k)"
  show "termIndex (timeout_child cn s t) = length (terms (timeout_child cn s t)) \<and>
         (\<forall>k < length (terms (timeout_child cn s t)).
            term_name_of (terms (timeout_child cn s t) ! k) =
              term_name cn (term_type (terms (timeout_child cn s t) ! k)) k)"
    using a by (auto simp: timeout_child_def nth_append less_Suc_eq)
next
  fix s :: clause_state and opn s'
  assume a: "termIndex s = length (terms s) \<and>
         (\<forall>k < length (terms s).
            term_name_of (terms s ! k) = term_name cn (term_type (terms s ! k)) k)"
    and r: "message_content cn s opn = Inr s'"
  from r obtain x where
    x: "terms s' = terms s @ [x]" "termIndex s' = termIndex s + 1"
       "term_name_of x = term_name cn ''messageContent'' (termIndex s)"
       "term_type x = ''messageContent''"
    by (rule message_content_pushes)
  show "termIndex s' = length (terms s') \<and>
         (\<forall>k < length (terms s').
            term_name_of (terms s' ! k) = term_name cn (term_type (terms s' ! k)) k)"
    using a x by (auto simp: nth_append less_Suc_eq)
next
  fix s :: clause_state and m
  assume "termIndex s = length (terms s) \<and>
         (\<forall>k < length (terms s).
            term_name_of (terms s ! k) = term_name cn (term_type (terms s ! k)) k)"
  then show "termIndex (s\<lparr>messages_error := m\<rparr>) = length (terms (s\<lparr>messages_error := m\<rparr>)) \<and>
         (\<forall>k < length (terms (s\<lparr>messages_error := m\<rparr>)).
            term_name_of (terms (s\<lparr>messages_error := m\<rparr>) ! k) =
              term_name cn (term_type (terms (s\<lparr>messages_error := m\<rparr>) ! k)) k)"
    by simp
qed

subsection \<open>The clauses of a contract\<close>

lemma clauses_child_are:
  assumes run: "clauses_child s x = Inr s'" and k: "clauses_are ns s"
  shows "clauses_are (ns @ filter (\<lambda>n. instanceof n ClauseContext) [x]) s'"
proof (cases "instanceof x ClauseContext")
  case True
  with run obtain cl where cl: "lower_clause x = Inr cl" and s': "s' = s\<lparr>st_clauses := st_clauses s @ [cl]\<rparr>"
    by (cases "lower_clause x") (simp_all add: clauses_child_def)
  have "list_all2 (\<lambda>cl n. lower_clause n = Inr cl) (st_clauses s @ [cl]) (ns @ [x])"
    using k cl by (simp add: clauses_are_def list_all2_appendI)
  then show ?thesis using True s' by (simp add: clauses_are_def)
next
  case False
  with run k show ?thesis by (simp add: clauses_child_def)
qed

lemma clauses_children_are:
  assumes "forEach clauses_child xs s = Inr s'" and "clauses_are ns s"
  shows "clauses_are (ns @ filter (\<lambda>n. instanceof n ClauseContext) xs) s'"
proof (rule forEach_collect [where I = clauses_are and f = clauses_child
      and m = "filter (\<lambda>n. instanceof n ClauseContext)", OF assms])
  fix k s x s' assume "clauses_are k s" "clauses_child s x = Inr s'"
  then show "clauses_are (k @ filter (\<lambda>n. instanceof n ClauseContext) [x]) s'"
    using clauses_child_are by blast
qed simp_all

lemma contract_child_are:
  assumes run: "contract_child s item = Inr s'" and k: "clauses_are ns s"
  shows "clauses_are (ns @ filter (\<lambda>n. instanceof n ClauseContext) (sub_nodes ClausesContext [item])) s'"
proof -
  let ?st1 = "if instanceof item DatesContext then fold (\<lambda>d s. date_child s d) (children item) s else s"
  have k1: "clauses_are ns ?st1" using k by (simp add: clauses_are_def dates_clauses)
  from run obtain st2 where
    st2: "(if instanceof item PartiesContext then forEach party_child (children item) ?st1 else Inr ?st1) = Inr st2"
    and fin: "(if instanceof item ClausesContext then forEach clauses_child (children item) st2 else Inr st2) = Inr s'"
    by (auto simp: contract_child_def Let_def split: sum.splits)
  have "st_clauses st2 = st_clauses ?st1"
    using st2 by (auto split: if_splits dest: parties_clauses)
  then have k2: "clauses_are ns st2" using k1 by (simp add: clauses_are_def)
  show ?thesis
  proof (cases "instanceof item ClausesContext")
    case True
    with fin have "forEach clauses_child (children item) st2 = Inr s'" by simp
    from clauses_children_are [OF this k2] True show ?thesis by (simp add: sub_nodes_single)
  next
    case False
    with fin k2 show ?thesis by (simp add: sub_nodes_single)
  qed
qed

lemma canonicalize_clauses:
  assumes "canonicalize tree = Inr c"
  shows "list_all2 (\<lambda>cl n. lower_clause n = Inr cl) (clauses c) (clause_nodes tree)"
proof -
  from assms obtain st where st: "forEach contract_child (children tree) initial_parse_state = Inr st"
    and c: "clauses c = st_clauses st"
    by (auto simp: canonicalize_def Let_def split: sum.splits)
  have i: "clauses_are [] initial_parse_state"
    by (simp add: clauses_are_def initial_parse_state_def)
  have "clauses_are ([] @ filter (\<lambda>n. instanceof n ClauseContext) (sub_nodes ClausesContext (children tree))) st"
  proof (rule forEach_collect [where I = clauses_are and f = contract_child
      and m = "\<lambda>ns. filter (\<lambda>n. instanceof n ClauseContext) (sub_nodes ClausesContext ns)", OF st i])
    fix k s x s' assume "clauses_are k s" "contract_child s x = Inr s'"
    then show "clauses_are (k @ filter (\<lambda>n. instanceof n ClauseContext) (sub_nodes ClausesContext [x])) s'"
      using contract_child_are by blast
  qed (simp_all add: sub_nodes_append sub_nodes_Nil)
  then show ?thesis by (simp add: clauses_are_def clause_nodes_def c)
qed

lemma lower_clause_timeouts:
  assumes "lower_clause n = Inr cl"
  shows "timeout_values (clause_terms cl) = map node_text (timeout_operands n)
       \<and> (\<forall>k < length (clause_terms cl).
            term_name_of (clause_terms cl ! k) =
              term_name (clause_name cl) (term_type (clause_terms cl ! k)) k)"
proof -
  from assms obtain clauseType idn st where
    st: "lower_terms (clauseName_of clauseType (node_text idn)) n = Inr st"
    and t: "clause_terms cl = terms st"
    and nm: "clause_name cl = clauseName_of clauseType (node_text idn)"
    by (rule lower_clause_Inr) simp
  show ?thesis
    unfolding t nm using lower_terms_values [OF st] lower_terms_names [OF st] by simp
qed

text \<open>
  C10. The guard of the timeout branch is the number coercion of the language, applied to
  every child of the timeout node. At a timeout node the callback over the children of a
  term node appends one Timeout term per child whose raw text coerces to a number, in
  order, named with consecutive term indices from the current one and carrying the child's
  raw text, and advances the index by their count. So in every successful parse the clauses
  are the lowerings of the clause nodes in order, the values of the Timeout terms of a clause
  are the raw texts of all the children of its timeout nodes that pass the guard, and the
  term at position \<open>k\<close> of a clause is named with the index \<open>k\<close>. A child whose raw text is
  the empty string coerces to 0, so it is emitted with the value \<open>''''\<close>.
\<close>

theorem timeout_branch_coercion:
  "(\<forall>cn st opn. instanceof opn TimeoutContext \<longrightarrow>
      operation_child cn st opn =
        Inr (st\<lparr>termIndex := termIndex st + length (filter (\<lambda>t. isNumber (node_text t)) (children opn)),
                terms := terms st @
                  map (\<lambda>(i, t). TimeoutTerm
                         \<lparr>pascal = pascal cn @ capitalizeFirst ''timeout'' @ toString i,
                          camel = camel cn @ capitalizeFirst ''timeout'' @ toString i,
                          snake = snake cn @ ''_timeout_'' @ toString i\<rparr> (node_text t))
                    (enumerate (termIndex st) (filter (\<lambda>t. isNumber (node_text t)) (children opn)))\<rparr>))
   \<and> (\<forall>c. parse listener tree = Inr c \<longrightarrow>
        list_all2 (\<lambda>cl n. lower_clause n = Inr cl
                     \<and> timeout_values (clause_terms cl) = map node_text (timeout_operands n)
                     \<and> (\<forall>k < length (clause_terms cl).
                          term_name_of (clause_terms cl ! k) =
                            \<lparr>pascal = pascal (clause_name cl) @ capitalizeFirst (term_type (clause_terms cl ! k)) @ toString k,
                             camel = camel (clause_name cl) @ capitalizeFirst (term_type (clause_terms cl ! k)) @ toString k,
                             snake = snake (clause_name cl) @ ''_'' @ term_type (clause_terms cl ! k) @ ''_'' @ toString k\<rparr>))
          (clauses c) (clause_nodes tree))
   \<and> isNumber []
   \<and> (\<forall>cn st tk. timeout_child cn st (TerminalNode tk []) =
        st\<lparr>termIndex := termIndex st + 1,
           terms := terms st @
             [TimeoutTerm \<lparr>pascal = pascal cn @ capitalizeFirst ''timeout'' @ toString (termIndex st),
                           camel = camel cn @ capitalizeFirst ''timeout'' @ toString (termIndex st),
                           snake = snake cn @ ''_timeout_'' @ toString (termIndex st)\<rparr> []]\<rparr>)"
proof (intro conjI allI impI)
  fix cn st opn assume h: "instanceof opn TimeoutContext"
  have "operation_child cn st opn = Inr (fold (\<lambda>t s. timeout_child cn s t) (children opn) st)"
    by (rule operation_child_timeout [OF h])
  then show "operation_child cn st opn =
        Inr (st\<lparr>termIndex := termIndex st + length (filter (\<lambda>t. isNumber (node_text t)) (children opn)),
                terms := terms st @
                  map (\<lambda>(i, t). TimeoutTerm
                         \<lparr>pascal = pascal cn @ capitalizeFirst ''timeout'' @ toString i,
                          camel = camel cn @ capitalizeFirst ''timeout'' @ toString i,
                          snake = snake cn @ ''_timeout_'' @ toString i\<rparr> (node_text t))
                    (enumerate (termIndex st) (filter (\<lambda>t. isNumber (node_text t)) (children opn)))\<rparr>)"
    unfolding timeout_children by (simp add: term_name_def)
next
  fix c assume "parse listener tree = Inr c"
  then have "canonicalize tree = Inr c" by (simp add: parse_def split: option.splits)
  from canonicalize_clauses [OF this]
  have "list_all2 (\<lambda>cl n. lower_clause n = Inr cl) (clauses c) (clause_nodes tree)" .
  then show "list_all2 (\<lambda>cl n. lower_clause n = Inr cl
                     \<and> timeout_values (clause_terms cl) = map node_text (timeout_operands n)
                     \<and> (\<forall>k < length (clause_terms cl).
                          term_name_of (clause_terms cl ! k) =
                            \<lparr>pascal = pascal (clause_name cl) @ capitalizeFirst (term_type (clause_terms cl ! k)) @ toString k,
                             camel = camel (clause_name cl) @ capitalizeFirst (term_type (clause_terms cl ! k)) @ toString k,
                             snake = snake (clause_name cl) @ ''_'' @ term_type (clause_terms cl ! k) @ ''_'' @ toString k\<rparr>))
          (clauses c) (clause_nodes tree)"
  proof (rule list_all2_mono)
    fix cl n assume l: "lower_clause n = Inr cl"
    from lower_clause_timeouts [OF l]
    show "lower_clause n = Inr cl
                     \<and> timeout_values (clause_terms cl) = map node_text (timeout_operands n)
                     \<and> (\<forall>k < length (clause_terms cl).
                          term_name_of (clause_terms cl ! k) =
                            \<lparr>pascal = pascal (clause_name cl) @ capitalizeFirst (term_type (clause_terms cl ! k)) @ toString k,
                             camel = camel (clause_name cl) @ capitalizeFirst (term_type (clause_terms cl ! k)) @ toString k,
                             snake = snake (clause_name cl) @ ''_'' @ term_type (clause_terms cl ! k) @ ''_'' @ toString k\<rparr>)"
      using l by (simp add: term_name_def)
  qed
next
  show e: "isNumber []" by (simp add: isNumber_def trim_def)
  fix cn st tk
  show "timeout_child cn st (TerminalNode tk []) =
        st\<lparr>termIndex := termIndex st + 1,
           terms := terms st @
             [TimeoutTerm \<lparr>pascal = pascal cn @ capitalizeFirst ''timeout'' @ toString (termIndex st),
                           camel = camel cn @ capitalizeFirst ''timeout'' @ toString (termIndex st),
                           snake = snake cn @ ''_timeout_'' @ toString (termIndex st)\<rparr> []]\<rparr>"
    using e by (simp add: timeout_child_def term_name_def)
qed

lemma parse_timeout_tree: "parse silent timeout_tree = Inr timeout_contract"
  by code_simp

lemma clause_nodes_timeout_tree: "clause_nodes timeout_tree = [timeout_clause_node]"
  by code_simp

lemma timeout_operands_example:
  "map node_text (timeout_operands timeout_clause_node) = [''10'', [], ''20'', ''30'']"
  by code_simp

lemma operation_child_example:
  "operation_child (clauseName_of ''right'' ''wait'') initial_state wide_timeout_node =
     Inr (initial_state
       \<lparr>termIndex := 3,
        terms := [TimeoutTerm (wait_name ''Timeout'' ''timeout'' ''0'') ''10'',
                  TimeoutTerm (wait_name ''Timeout'' ''timeout'' ''1'') [],
                  TimeoutTerm (wait_name ''Timeout'' ''timeout'' ''2'') ''20'']\<rparr>)"
  by code_simp

lemma snake_names_example:
  "map (\<lambda>t. snake (term_name_of t)) (clause_terms timeout_clause) =
     [''right_wait_timeout_0'', ''right_wait_timeout_1'', ''right_wait_timeout_2'',
      ''right_wait_messageContent_3'', ''right_wait_timeout_4'']"
  by code_simp

theorem timeout_branch_coercion_witness:
  "parse silent timeout_tree = Inr timeout_contract
   \<and> clauses timeout_contract = [timeout_clause]
   \<and> clause_nodes timeout_tree = [timeout_clause_node]
   \<and> lower_clause timeout_clause_node = Inr timeout_clause
   \<and> map node_text (timeout_operands timeout_clause_node) = [''10'', [], ''20'', ''30'']
   \<and> timeout_values (clause_terms timeout_clause) = [''10'', [], ''20'', ''30'']
   \<and> map (\<lambda>t. snake (term_name_of t)) (clause_terms timeout_clause) =
       [''right_wait_timeout_0'', ''right_wait_timeout_1'', ''right_wait_timeout_2'',
        ''right_wait_messageContent_3'', ''right_wait_timeout_4'']
   \<and> instanceof wide_timeout_node TimeoutContext
   \<and> children wide_timeout_node =
       [tok ''Timeout'', tok ''('', tok ''10'', tok [], tok ''20'', tok '')'']
   \<and> operation_child (clauseName_of ''right'' ''wait'') initial_state wide_timeout_node =
       Inr (initial_state
         \<lparr>termIndex := 3,
          terms := [TimeoutTerm (wait_name ''Timeout'' ''timeout'' ''0'') ''10'',
                    TimeoutTerm (wait_name ''Timeout'' ''timeout'' ''1'') [],
                    TimeoutTerm (wait_name ''Timeout'' ''timeout'' ''2'') ''20'']\<rparr>)"
proof -
  have cs: "clauses timeout_contract = [timeout_clause]"
    by (simp add: timeout_contract_def)
  have "list_all2 (\<lambda>cl n. lower_clause n = Inr cl
                     \<and> timeout_values (clause_terms cl) = map node_text (timeout_operands n)
                     \<and> (\<forall>k < length (clause_terms cl).
                          term_name_of (clause_terms cl ! k) =
                            \<lparr>pascal = pascal (clause_name cl) @ capitalizeFirst (term_type (clause_terms cl ! k)) @ toString k,
                             camel = camel (clause_name cl) @ capitalizeFirst (term_type (clause_terms cl ! k)) @ toString k,
                             snake = snake (clause_name cl) @ ''_'' @ term_type (clause_terms cl ! k) @ ''_'' @ toString k\<rparr>))
          (clauses timeout_contract) (clause_nodes timeout_tree)"
    using timeout_branch_coercion [of silent timeout_tree] parse_timeout_tree by blast
  then have l: "lower_clause timeout_clause_node = Inr timeout_clause"
    and v: "timeout_values (clause_terms timeout_clause) = map node_text (timeout_operands timeout_clause_node)"
    unfolding cs clause_nodes_timeout_tree by simp_all
  have i: "instanceof wide_timeout_node TimeoutContext"
    and ch: "children wide_timeout_node =
       [tok ''Timeout'', tok ''('', tok ''10'', tok [], tok ''20'', tok '')'']"
    by (simp_all add: wide_timeout_node_def)
  show ?thesis
    using parse_timeout_tree cs clause_nodes_timeout_tree l v timeout_operands_example
      snake_names_example i ch operation_child_example
    by simp
qed

end
